theory Spec2Isabelle
  imports
    Main
    "HOL-Library.Word"
    "HOL-Library.Char_ord"
    "HOL-Library.List_Lexorder"
    "HOL-Library.Multiset"
begin

section \<open>QA-Prolog: the AST preprocessor and the Verilog back end\<close>

text \<open>
  A shallow embedding of \<^verbatim>\<open>verilog.go\<close> (the Verilog writer) and of the
  preprocessing file (\<^verbatim>\<open>RejectUnimplemented\<close>, \<^verbatim>\<open>FindByType\<close>,
  \<^verbatim>\<open>AtomNames\<close>). Go strings are byte sequences, so a string is a
  \<^typ>\<open>char list\<close> and indexing reads one byte. Every way in which the Go code stops
  early is a value of the type \<open>error\<close>: \<^verbatim>\<open>notify.Fatal\<close> and
  \<^verbatim>\<open>notify.Fatalf\<close> (message to standard error, exit status 1),
  \<^verbatim>\<open>ParseError\<close> (position-tagged message, exit status 1) and the run-time
  panics of indexing, slicing and type assertion.
\<close>

subsection \<open>Data model\<close>

text \<open>
  Modelled from the spec: the declarations of \<^verbatim>\<open>ASTNodeType\<close>,
  \<^verbatim>\<open>ASTNode\<close> and \<^verbatim>\<open>position\<close> live in the generated parser, which
  is not among the sources. The tags are the closed set of section 3 of the specification
  (every one of them is named in the code); the fields of a node are those the code reads:
  \<^verbatim>\<open>Type\<close>, \<^verbatim>\<open>Value\<close> (an \<^verbatim>\<open>interface{}\<close>),
  \<^verbatim>\<open>Text\<close>, \<^verbatim>\<open>Pos\<close> and \<^verbatim>\<open>Children\<close>.
\<close>

datatype ASTNodeType =
    NumeralType | AtomType | VariableType | ClauseType | ListType | StructureType
  | UnaryOpType | AdditiveOpType | MultiplicativeOpType | RelationOpType
  | PrimaryExprType | UnaryExprType | MultiplicativeExprType | AdditiveExprType
  | RelationType | PredicateType | TermType

record position =
  line :: int
  col :: int

text \<open>The dynamic payload \<^verbatim>\<open>Value interface{}\<close>: nil, a string or an int.\<close>

datatype payload = VNil | VString string | VInt int

datatype ASTNode =
  ASTNode (Type: ASTNodeType) (Value: payload) (Text: string) (Pos: position)
    (Children: "ASTNode list")

text \<open>
  The arguments handed to a \<^verbatim>\<open>Fatalf\<close> format string are kept as they are
  passed, so that no claim depends on how \<^verbatim>\<open>%q\<close> or \<^verbatim>\<open>%#v\<close>
  renders them.
\<close>

datatype fmtarg = ArgString string | ArgType ASTNodeType | ArgNode ASTNode

datatype error =
    Fatal string
  | Fatalf string "fmtarg list"
  | ParseError position string
  | Panic string

definition bindE :: "error + 'a \<Rightarrow> ('a \<Rightarrow> error + 'b) \<Rightarrow> error + 'b" where
  "bindE m f = (case m of Inl e \<Rightarrow> Inl e | Inr x \<Rightarrow> f x)"

text \<open>Running a fallible step over a slice, left to right, stopping at the first failure.\<close>

fun mapE :: "('a \<Rightarrow> error + 'b) \<Rightarrow> 'a list \<Rightarrow> error + 'b list" where
  "mapE f [] = Inr []"
| "mapE f (x # xs) =
     (case f x of
        Inl e \<Rightarrow> Inl e
      | Inr y \<Rightarrow> (case mapE f xs of Inl e \<Rightarrow> Inl e | Inr ys \<Rightarrow> Inr (y # ys)))"

subsection \<open>Go primitives used by the code\<close>

text \<open>
  \<^verbatim>\<open>s[lo:hi]\<close> on a string panics unless \<open>0 \<le> lo \<le> hi \<le> len(s)\<close>;
  \<^verbatim>\<open>s[i]\<close> and \<^verbatim>\<open>xs[i]\<close> panic unless \<open>0 \<le> i < len\<close>;
  \<^verbatim>\<open>xs[1:]\<close> panics on an empty slice.
\<close>

definition slice :: "string \<Rightarrow> int \<Rightarrow> int \<Rightarrow> error + string" where
  "slice s lo hi =
     (if 0 \<le> lo \<and> lo \<le> hi \<and> hi \<le> int (length s)
      then Inr (take (nat (hi - lo)) (drop (nat lo) s))
      else Inl (Panic ''slice bounds out of range''))"

definition index0 :: "'a list \<Rightarrow> error + 'a" where
  "index0 xs = (case xs of [] \<Rightarrow> Inl (Panic ''index out of range'') | x # _ \<Rightarrow> Inr x)"

definition from1 :: "'a list \<Rightarrow> error + 'a list" where
  "from1 xs = (case xs of [] \<Rightarrow> Inl (Panic ''slice bounds out of range'') | _ # t \<Rightarrow> Inr t)"

text \<open>
  \<^verbatim>\<open>%d\<close> of a non-negative integer. Every integer the writer prints is
  non-negative: a slice index, a length minus one of a non-empty slice, a clause number
  plus one, or an unsigned width.
\<close>

definition digitChar :: "nat \<Rightarrow> char" where
  "digitChar d = char_of (48 + d)"

function showNat :: "nat \<Rightarrow> string" where
  "showNat n = (if n < 10 then [digitChar n] else showNat (n div 10) @ [digitChar (n mod 10)])"
  by pat_completeness auto
termination
  by (relation "measure (\<lambda>n. n)") auto

declare showNat.simps [simp del]

text \<open>
  \<^verbatim>\<open>unicode.IsLower\<close>, \<^verbatim>\<open>unicode.IsDigit\<close> and
  \<^verbatim>\<open>unicode.IsUpper\<close> on \<^verbatim>\<open>rune(a[0])\<close>. The argument is one byte
  converted to a rune, so it is a code point below 256 and the three predicates are
  Go's Latin-1 tables: the ASCII letters and digits, and the cased letters of the upper
  half (U+00B5, U+00DF..U+00FF without U+00F7 are lower case; U+00C0..U+00DE without
  U+00D7 are upper case).
\<close>

definition rune :: "char \<Rightarrow> nat" where
  "rune c = of_char c"

definition IsLower :: "nat \<Rightarrow> bool" where
  "IsLower r = ((97 \<le> r \<and> r \<le> 122) \<or> r = 181 \<or> (223 \<le> r \<and> r \<le> 255 \<and> r \<noteq> 247))"

definition IsDigit :: "nat \<Rightarrow> bool" where
  "IsDigit r = (48 \<le> r \<and> r \<le> 57)"

definition IsUpper :: "nat \<Rightarrow> bool" where
  "IsUpper r = ((65 \<le> r \<and> r \<le> 90) \<or> (192 \<le> r \<and> r \<le> 222 \<and> r \<noteq> 215))"

text \<open>
  Go's \<^verbatim>\<open>unicode/utf8\<close>: the first character of a string is the code point
  that its first bytes encode in UTF-8. \<open>leadInfo\<close> is the table
  \<^verbatim>\<open>first\<close> with \<^verbatim>\<open>acceptRanges\<close>: for a lead byte, the length of
  the encoding and the range the second byte has to be in. \<open>decodeRune\<close> follows
  \<^verbatim>\<open>utf8.DecodeRuneInString\<close> and returns the code point and the number of
  bytes it takes; bytes that encode nothing are the code point U+FFFD of width 1.
  \<open>runeCount\<close> is \<^verbatim>\<open>utf8.RuneCountInString\<close>, the number of characters
  that \<^verbatim>\<open>fmt\<close> counts when it pads to a width.
\<close>

definition leadInfo :: "nat \<Rightarrow> (nat \<times> nat \<times> nat) option" where
  "leadInfo c =
     (if 194 \<le> c \<and> c \<le> 223 then Some (2, 128, 191)
      else if c = 224 then Some (3, 160, 191)
      else if 225 \<le> c \<and> c \<le> 236 then Some (3, 128, 191)
      else if c = 237 then Some (3, 128, 159)
      else if 238 \<le> c \<and> c \<le> 239 then Some (3, 128, 191)
      else if c = 240 then Some (4, 144, 191)
      else if 241 \<le> c \<and> c \<le> 243 then Some (4, 128, 191)
      else if c = 244 then Some (4, 128, 143)
      else None)"

definition decodeRune :: "string \<Rightarrow> nat \<times> nat" where
  "decodeRune s =
     (case s of
        [] \<Rightarrow> (65533, 0)
      | b0 # rest \<Rightarrow>
          (let c0 = rune b0 in
           if c0 < 128 then (c0, 1)
           else
             (case leadInfo c0 of
                None \<Rightarrow> (65533, 1)
              | Some (sz, lo, hi) \<Rightarrow>
                  if length s < sz then (65533, 1)
                  else
                    (let c1 = rune (rest ! 0) in
                     if c1 < lo \<or> hi < c1 then (65533, 1)
                     else if sz = 2 then ((c0 mod 32) * 64 + c1 mod 64, 2)
                     else
                       (let c2 = rune (rest ! 1) in
                        if c2 < 128 \<or> 191 < c2 then (65533, 1)
                        else if sz = 3 then
                          ((c0 mod 16) * 4096 + (c1 mod 64) * 64 + c2 mod 64, 3)
                        else
                          (let c3 = rune (rest ! 2) in
                           if c3 < 128 \<or> 191 < c3 then (65533, 1)
                           else
                             ((c0 mod 8) * 262144 + (c1 mod 64) * 4096 + (c2 mod 64) * 64 +
                                c3 mod 64, 4)))))))"

definition firstRune :: "string \<Rightarrow> nat" where
  "firstRune s = fst (decodeRune s)"

function runeCount :: "string \<Rightarrow> nat" where
  "runeCount s = (if s = [] then 0 else 1 + runeCount (drop (max 1 (snd (decodeRune s))) s))"
  by pat_completeness auto
termination
  by (relation "measure length") auto

declare runeCount.simps [simp del]

subsection \<open>The identifier encoder: \<^verbatim>\<open>numToVerVar\<close>\<close>

definition chars :: string where
  "chars = ''ABCDEFGHIJKLMNOPQRSTUVWXYZ''"

definition nChars :: int where
  "nChars = int (length chars)"

text \<open>
  The parameter is a Go \<^verbatim>\<open>int\<close>. The second case is reached only with
  \<open>n \<ge> 26\<close>, where Go's truncating \<^verbatim>\<open>/\<close> and \<^verbatim>\<open>%\<close> agree with
  \<open>div\<close> and \<open>mod\<close>; no operation of the function can overflow. A negative
  \<open>n\<close> takes the first case and panics in the slice expression.
\<close>

definition numToVerVar :: "int \<Rightarrow> error + string" where
  "numToVerVar n =
     (if n < nChars then
        bindE (slice chars n (n + 1)) (\<lambda>c. Inr (''$'' @ c))
      else if n < nChars * (nChars + 1) then
        (let n0 = n mod nChars; n1 = n div nChars in
         bindE (slice chars (n1 - 1) n1) (\<lambda>c1.
         bindE (slice chars n0 (n0 + 1)) (\<lambda>c0.
         Inr (''$'' @ c1 @ c0))))
      else Inl (Fatal ''Too many parameters''))"

subsection \<open>The tree walker and the validator\<close>

text \<open>
  \<^verbatim>\<open>FindByType\<close>: the closure \<^verbatim>\<open>walker\<close> appends to the captured
  slice \<^verbatim>\<open>nodes\<close>; here the slice is passed and returned.
\<close>

fun walker :: "ASTNodeType \<Rightarrow> ASTNode \<Rightarrow> ASTNode list \<Rightarrow> ASTNode list"
  and walkerKids :: "ASTNodeType \<Rightarrow> ASTNode list \<Rightarrow> ASTNode list \<Rightarrow> ASTNode list" where
  "walker t (ASTNode ty v tx ps kids) nodes =
     walkerKids t kids (if ty = t then nodes @ [ASTNode ty v tx ps kids] else nodes)"
| "walkerKids t [] nodes = nodes"
| "walkerKids t (c # cs) nodes = walkerKids t cs (walker t c nodes)"

definition FindByType :: "ASTNode \<Rightarrow> ASTNodeType \<Rightarrow> ASTNode list" where
  "FindByType a t = walker t a []"

text \<open>
  \<^verbatim>\<open>RejectUnimplemented\<close>. \<^verbatim>\<open>ParseError\<close> is the function that
  \<^verbatim>\<open>main\<close> installs: it prints file, line, column and the message and exits with
  status 1, so the check for structures is reached only when no list was found. The
  parameter \<^verbatim>\<open>p\<close> is not used by the Go function.
\<close>

definition RejectUnimplemented :: "ASTNode \<Rightarrow> error + unit" where
  "RejectUnimplemented a =
     (case FindByType a ListType of
        n # _ \<Rightarrow> Inl (ParseError (Pos n) ''Lists are not currently supported'')
      | [] \<Rightarrow>
          (case FindByType a StructureType of
             n # _ \<Rightarrow> Inl (ParseError (Pos n) ''Structures are not currently supported'')
           | [] \<Rightarrow> Inr ()))"

text \<open>
  \<^verbatim>\<open>uniqueAtomNames\<close>: the Go map \<^verbatim>\<open>map[string]struct{}\<close> is a set of
  strings, passed and returned. A clause node drops its first child with
  \<^verbatim>\<open>kids[1:]\<close>, which panics on a clause without children.
\<close>

fun uniqueAtomNames :: "ASTNode \<Rightarrow> string set \<Rightarrow> error + string set"
  and uniqueAtomNamesKids :: "ASTNode list \<Rightarrow> string set \<Rightarrow> error + string set" where
  "uniqueAtomNames (ASTNode ty v tx ps kids) names =
     (case (if ty = AtomType then
              (case v of
                 VString nm \<Rightarrow> Inr (insert nm names)
               | _ \<Rightarrow> Inl (Fatalf ''Internal error parsing %#v'' [ArgNode (ASTNode ty v tx ps kids)]))
            else Inr names) of
        Inl e \<Rightarrow> Inl e
      | Inr names1 \<Rightarrow>
          (if ty = ClauseType then
             (case kids of
                [] \<Rightarrow> Inl (Panic ''slice bounds out of range'')
              | _ # kids1 \<Rightarrow> uniqueAtomNamesKids kids1 names1)
           else uniqueAtomNamesKids kids names1))"
| "uniqueAtomNamesKids [] names = Inr names"
| "uniqueAtomNamesKids (aa # kids) names =
     (case uniqueAtomNames aa names of
        Inl e \<Rightarrow> Inl e
      | Inr names1 \<Rightarrow> uniqueAtomNamesKids kids names1)"

text \<open>
  \<^verbatim>\<open>AtomNames\<close>: the keys of the set are collected in the unspecified order of a
  Go map iteration and then sorted with \<^verbatim>\<open>sort.Strings\<close> (bytewise
  lexicographic order). The keys are distinct, so the result is the one ascending
  enumeration of the set, whatever order the iteration took.
\<close>

definition AtomNames :: "ASTNode \<Rightarrow> error + string list" where
  "AtomNames a =
     (case uniqueAtomNames a {} of
        Inl e \<Rightarrow> Inl e
      | Inr nmSet \<Rightarrow> Inr (sorted_list_of_set nmSet))"

subsection \<open>Clause arguments and expressions\<close>

text \<open>\<^verbatim>\<open>args\<close>: the head is the clause's first child, its terms are the head's
  children after the first; position \<open>i\<close> gets the identifier \<open>numToVerVar i\<close>.\<close>

definition args :: "ASTNode \<Rightarrow> error + (string list \<times> string list)" where
  "args c =
     bindE (index0 (Children c)) (\<lambda>pred.
     bindE (from1 (Children pred)) (\<lambda>terms.
     bindE (mapE (\<lambda>i. numToVerVar (int i)) [0..<length terms]) (\<lambda>vArgs.
     Inr (map Text terms, vArgs))))"

definition prologToVerilogUnary :: "string \<rightharpoonup> string" where
  "prologToVerilogUnary = map_of [(''-'', ''-'')]"

definition prologToVerilogAdd :: "string \<rightharpoonup> string" where
  "prologToVerilogAdd = map_of [(''+'', ''+''), (''-'', ''-'')]"

definition prologToVerilogMult :: "string \<rightharpoonup> string" where
  "prologToVerilogMult = map_of [(''*'', ''*'')]"

definition prologToVerilogRel :: "string \<rightharpoonup> string" where
  "prologToVerilogRel =
     map_of [(''<='', ''<=''), (''>='', ''>=''), (''<'', ''<''), (''>'', ''>''),
       (''='', ''==''), ([CHR 0x5C, CHR ''=''], ''!=''), (''is'', ''=='')]"

text \<open>
  \<^verbatim>\<open>a.Value.(string)\<close> in its one-result form panics when the payload is not a
  string.
\<close>

definition payloadString :: "payload \<Rightarrow> error + string" where
  "payloadString v =
     (case v of
        VString s \<Rightarrow> Inr s
      | _ \<Rightarrow> Inl (Panic ''interface conversion: not a string''))"

text \<open>The lookup shared by the four operator cases of \<^verbatim>\<open>toVerilogExpr\<close>.\<close>

definition opLookup :: "(string \<rightharpoonup> string) \<Rightarrow> ASTNodeType \<Rightarrow> payload \<Rightarrow> error + string" where
  "opLookup tbl ty v =
     bindE (payloadString v) (\<lambda>s.
       case tbl s of
         Some w \<Rightarrow> Inr w
       | None \<Rightarrow>
           Inl (Fatalf ''Internal error: Failed to convert %s %q from Prolog to Verilog''
                  [ArgType ty, ArgString s]))"

text \<open>
  \<^verbatim>\<open>toVerilogExpr\<close>. Children are read by index in the Go code; the case
  distinctions on the list of children below follow the order in which the Go code
  evaluates them, so that a missing child panics exactly where the index expression
  would.
\<close>

fun toVerilogExpr :: "(string \<rightharpoonup> string) \<Rightarrow> ASTNode \<Rightarrow> error + string" where
  "toVerilogExpr p2v (ASTNode ty v tx ps kids) =
     (case ty of
        NumeralType \<Rightarrow> Inr tx
      | AtomType \<Rightarrow> payloadString v
      | VariableType \<Rightarrow>
          (case payloadString v of
             Inl e \<Rightarrow> Inl e
           | Inr nm \<Rightarrow>
               (case p2v nm of
                  None \<Rightarrow>
                    Inl (Fatalf
                      ''Internal error: Failed to convert variable %s from Prolog to Verilog''
                      [ArgString nm])
                | Some w \<Rightarrow> Inr w))
      | UnaryOpType \<Rightarrow> opLookup prologToVerilogUnary ty v
      | AdditiveOpType \<Rightarrow> opLookup prologToVerilogAdd ty v
      | MultiplicativeOpType \<Rightarrow> opLookup prologToVerilogMult ty v
      | RelationOpType \<Rightarrow> opLookup prologToVerilogRel ty v
      | PrimaryExprType \<Rightarrow>
          (case kids of
             [] \<Rightarrow> Inl (Panic ''index out of range'')
           | k0 # _ \<Rightarrow>
               (case toVerilogExpr p2v k0 of
                  Inl e \<Rightarrow> Inl e
                | Inr c \<Rightarrow>
                    (case payloadString v of
                       Inl e \<Rightarrow> Inl e
                     | Inr s \<Rightarrow> if s = ''()'' then Inr (''('' @ c @ '')'') else Inr c)))
      | UnaryExprType \<Rightarrow>
          (case kids of
             [] \<Rightarrow> Inl (Panic ''index out of range'')
           | [k0] \<Rightarrow> toVerilogExpr p2v k0
           | k0 # k1 # _ \<Rightarrow>
               (case toVerilogExpr p2v k0 of
                  Inl e \<Rightarrow> Inl e
                | Inr c0 \<Rightarrow>
                    (case toVerilogExpr p2v k1 of
                       Inl e \<Rightarrow> Inl e
                     | Inr c1 \<Rightarrow> Inr (c0 @ c1))))
      | MultiplicativeExprType \<Rightarrow>
          (case kids of
             [] \<Rightarrow> Inl (Panic ''index out of range'')
           | [k0] \<Rightarrow> toVerilogExpr p2v k0
           | k0 # k1 # rest \<Rightarrow>
               (case toVerilogExpr p2v k0 of
                  Inl e \<Rightarrow> Inl e
                | Inr c1 \<Rightarrow>
                    (case toVerilogExpr p2v k1 of
                       Inl e \<Rightarrow> Inl e
                     | Inr w \<Rightarrow>
                         (case rest of
                            [] \<Rightarrow> Inl (Panic ''index out of range'')
                          | k2 # _ \<Rightarrow>
                              (case toVerilogExpr p2v k2 of
                                 Inl e \<Rightarrow> Inl e
                               | Inr c2 \<Rightarrow> Inr (c1 @ w @ c2))))))
      | AdditiveExprType \<Rightarrow>
          (case kids of
             [] \<Rightarrow> Inl (Panic ''index out of range'')
           | [k0] \<Rightarrow> toVerilogExpr p2v k0
           | k0 # k1 # rest \<Rightarrow>
               (case toVerilogExpr p2v k0 of
                  Inl e \<Rightarrow> Inl e
                | Inr c1 \<Rightarrow>
                    (case toVerilogExpr p2v k1 of
                       Inl e \<Rightarrow> Inl e
                     | Inr w \<Rightarrow>
                         (case rest of
                            [] \<Rightarrow> Inl (Panic ''index out of range'')
                          | k2 # _ \<Rightarrow>
                              (case toVerilogExpr p2v k2 of
                                 Inl e \<Rightarrow> Inl e
                               | Inr c2 \<Rightarrow> Inr (c1 @ '' '' @ w @ '' '' @ c2))))))
      | RelationType \<Rightarrow>
          (case kids of
             [] \<Rightarrow> Inl (Panic ''index out of range'')
           | k0 # rest1 \<Rightarrow>
               (case toVerilogExpr p2v k0 of
                  Inl e \<Rightarrow> Inl e
                | Inr c1 \<Rightarrow>
                    (case rest1 of
                       [] \<Rightarrow> Inl (Panic ''index out of range'')
                     | k1 # rest2 \<Rightarrow>
                         (case toVerilogExpr p2v k1 of
                            Inl e \<Rightarrow> Inl e
                          | Inr w \<Rightarrow>
                              (case rest2 of
                                 [] \<Rightarrow> Inl (Panic ''index out of range'')
                               | k2 # _ \<Rightarrow>
                                   (case toVerilogExpr p2v k2 of
                                      Inl e \<Rightarrow> Inl e
                                    | Inr c2 \<Rightarrow> Inr (c1 @ '' '' @ w @ '' '' @ c2)))))))
      | PredicateType \<Rightarrow>
          (case kids of
             [] \<Rightarrow> Inl (Panic ''index out of range'')
           | k0 # _ \<Rightarrow> toVerilogExpr p2v k0)
      | TermType \<Rightarrow>
          (case kids of
             [] \<Rightarrow> Inl (Panic ''index out of range'')
           | k0 # _ \<Rightarrow> toVerilogExpr p2v k0)
      | _ \<Rightarrow> Inl (Fatalf ''Internal error: Unexpected AST node type %s'' [ArgType ty]))"

subsection \<open>The clause compiler\<close>

text \<open>
  \<^verbatim>\<open>process\<close>, first loop: one head argument after the other is classified by
  its first byte. \<^verbatim>\<open>a[0]\<close> panics on an empty text. The two slices
  \<^verbatim>\<open>pArgs\<close> and \<^verbatim>\<open>vArgs\<close> have the same length, so the loop runs
  over their pairs.
\<close>

fun processArgs :: "(string \<times> string) list \<Rightarrow> string list \<Rightarrow> error + string list" where
  "processArgs [] valid = Inr valid"
| "processArgs ((a, va) # rest) valid =
     (case a of
        [] \<Rightarrow> Inl (Panic ''index out of range'')
      | c # _ \<Rightarrow>
          (if IsLower (rune c) then processArgs rest (valid @ [va @ '' == `'' @ a])
           else if IsDigit (rune c) then processArgs rest (valid @ [va @ '' == '' @ a])
           else if IsUpper (rune c) then processArgs rest valid
           else Inl (Fatalf ''Internal error processing %q'' [ArgString a])))"

definition process :: "ASTNode \<Rightarrow> (string \<rightharpoonup> string) \<Rightarrow> error + string list" where
  "process c p2v =
     bindE (args c) (\<lambda>(pArgs, vArgs).
     bindE (processArgs (zip pArgs vArgs) []) (\<lambda>valid.
     bindE (from1 (Children c)) (\<lambda>body.
     bindE (mapE (toVerilogExpr p2v) body) (\<lambda>exprs.
     Inr (valid @ exprs)))))"

text \<open>
  \<^verbatim>\<open>writeClauseBody\<close>, first loop: the map from Prolog texts to Verilog
  identifiers is built left to right; a text that is already bound yields an equality
  with the identifier it is bound to.
\<close>

fun bindArgs ::
  "(string \<times> string) list \<Rightarrow> string list \<Rightarrow> (string \<rightharpoonup> string) \<Rightarrow>
     string list \<times> (string \<rightharpoonup> string)" where
  "bindArgs [] valid p2v = (valid, p2v)"
| "bindArgs ((p, va) # rest) valid p2v =
     (case p2v p of
        Some v \<Rightarrow> bindArgs rest (valid @ [va @ '' == '' @ v]) p2v
      | None \<Rightarrow> bindArgs rest valid (p2v(p \<mapsto> va)))"

text \<open>
  The slice \<^verbatim>\<open>valid\<close> of \<^verbatim>\<open>writeClauseBody\<close> as it stands when
  the function starts to print (lines 246 to 266): the equalities of repeated
  arguments, then what \<^verbatim>\<open>process\<close> returns, or the constant
  \<^verbatim>\<open>1'b1\<close> when both are empty.
\<close>

definition clauseValid :: "ASTNode \<Rightarrow> error + string list" where
  "clauseValid c =
     bindE (args c) (\<lambda>(pArgs, vArgs).
       case bindArgs (zip pArgs vArgs) [] Map.empty of
         (valid0, p2v) \<Rightarrow>
           bindE (process c p2v) (\<lambda>more.
             let valid = valid0 @ more in
             Inr (if length valid = 0 then valid @ [''1'' @ [CHR 0x27] @ ''b1''] else valid)))"

text \<open>
  The output sink is a string; a function that writes returns the text it wrote. A run
  that stops with an error returns the error alone: what it had written before is not
  part of the result.
\<close>

definition wireLine :: "nat \<Rightarrow> nat \<Rightarrow> string" where
  "wireLine hi cNum = ''  wire ['' @ showNat hi @ '':0] $v'' @ showNat (cNum + 1) @ '';\<newline>''"

definition assignLine :: "nat \<Rightarrow> nat \<Rightarrow> string \<Rightarrow> string" where
  "assignLine cNum i v =
     ''  assign $v'' @ showNat (cNum + 1) @ ''['' @ showNat i @ ''] = '' @ v @ '';\<newline>''"

text \<open>
  Modelled from the spec: the fields \<^verbatim>\<open>IntToSym\<close> and \<^verbatim>\<open>TopLevel\<close>
  are not in the declaration of \<^verbatim>\<open>Parameters\<close> among the sources. The
  symbol table is an ordered sequence of names. The predicate groups are a mapping from
  a predicate name to the clauses of that name and arity; the code ranges over it with
  a string key, so it is a Go map. \<^verbatim>\<open>IntBits\<close> is a \<^verbatim>\<open>uint\<close>, taken
  as 64 bits wide.
\<close>

record Parameters =
  ProgName :: string
  InFileName :: string
  IntBits :: "64 word"
  IntToSym :: "string list"
  TopLevel :: "string \<rightharpoonup> ASTNode list"

definition writeClauseBody :: "ASTNode \<Rightarrow> Parameters \<Rightarrow> string \<Rightarrow> nat \<Rightarrow> error + string" where
  "writeClauseBody c p nm cNum =
     bindE (clauseValid c) (\<lambda>valid.
       Inr (wireLine (length valid - 1) cNum @
            concat (map (\<lambda>(i, v). assignLine cNum i v) (enumerate 0 valid))))"

subsection \<open>The clause-group compiler and the program emitter\<close>

text \<open>A loop that prints a separator before every element but the first.\<close>

definition joinWith :: "string \<Rightarrow> string list \<Rightarrow> string" where
  "joinWith sep xs = concat (map (\<lambda>(i, x). (if i > 0 then sep else []) @ x) (enumerate 0 xs))"

definition writeClauseGroupHeader ::
  "ASTNode \<Rightarrow> Parameters \<Rightarrow> string \<Rightarrow> ASTNode list \<Rightarrow> error + string" where
  "writeClauseGroupHeader a p nm cs =
     bindE (index0 cs) (\<lambda>c0.
     bindE (args c0) (\<lambda>(pArgs, vArgs).
     Inr (''// Define '' @ nm @ ''.\<newline>'' @
          ''module '' @ [CHR 0x5C] @ nm @ '' ('' @ joinWith '', '' vArgs @ '', $valid);\<newline>'' @
          (if IntBits p = 1 then
             concat (map (\<lambda>v. ''  input '' @ v @ '';\<newline>'') vArgs)
           else
             concat (map (\<lambda>v. ''  input ['' @ showNat (unat (IntBits p - 1)) @ '':0] '' @ v @
               '';\<newline>'') vArgs)) @
          ''  output $valid;\<newline>'')))"

text \<open>The operand of the final assignment: \<^verbatim>\<open>&$v1 | &$v2 | ...\<close>, one term
  per clause index.\<close>

definition validTerms :: "nat \<Rightarrow> string" where
  "validTerms k = joinWith '' | '' (map (\<lambda>i. ''&$v'' @ showNat (i + 1)) [0..<k])"

definition writeClauseGroup ::
  "ASTNode \<Rightarrow> Parameters \<Rightarrow> string \<Rightarrow> ASTNode list \<Rightarrow> error + string" where
  "writeClauseGroup a p nm cs =
     bindE (writeClauseGroupHeader a p nm cs) (\<lambda>header.
     bindE (mapE (\<lambda>(i, c). writeClauseBody c p nm i) (enumerate 0 cs)) (\<lambda>bodies.
     Inr (header @ concat bodies @
          ''  assign $valid = '' @ validTerms (length cs) @ '';\<newline>'' @
          ''endmodule\<newline>'')))"

text \<open>
  \<^verbatim>\<open>writeSymbols\<close>. The loop counts the decimal digits of the largest symbol
  number. In \<^verbatim>\<open>%-*s\<close> and \<^verbatim>\<open>%*d\<close> the width is an argument: Go's
  \<^verbatim>\<open>fmt\<close> takes an unsigned width that fits an \<^verbatim>\<open>int\<close> and is at
  most \<open>10\<^sup>6\<close>, and otherwise writes \<^verbatim>\<open>%!(BADWIDTH)\<close> and pads nothing.
  Padding counts characters, not bytes. The numbers that \<^verbatim>\<open>%*d\<close> pads are
  decimal digits, one byte each.
\<close>

function digsLoop :: "int \<Rightarrow> nat \<Rightarrow> nat" where
  "digsLoop n digs = (if n > 0 then digsLoop (n div 10) (digs + 1) else digs)"
  by pat_completeness auto
termination
  by (relation "measure (\<lambda>(n, digs). nat n)") auto

declare digsLoop.simps [simp del]

definition padRight :: "nat \<Rightarrow> string \<Rightarrow> string" where
  "padRight w s = s @ replicate (w - runeCount s) CHR '' ''"

definition padLeft :: "nat \<Rightarrow> string \<Rightarrow> string" where
  "padLeft w s = replicate (w - length s) CHR '' '' @ s"

definition defineLine :: "64 word \<Rightarrow> nat \<Rightarrow> nat \<Rightarrow> string \<Rightarrow> string" where
  "defineLine bits digs i s =
     ''`define '' @
     (if uint bits \<le> 1000000 then padRight (unat bits) s else ''%!(BADWIDTH)'' @ s) @
     '' '' @ padLeft digs (showNat i) @ ''\<newline>''"

definition writeSymbols :: "ASTNode \<Rightarrow> Parameters \<Rightarrow> string" where
  "writeSymbols a p =
     (let digs = digsLoop (int (length (IntToSym p)) - 1) 0 in
      ''// Define all of the symbols used in this program.\<newline>'' @
      concat (map (\<lambda>(i, s). defineLine (IntBits p) digs i s) (enumerate 0 (IntToSym p))))"

definition headerComments :: "Parameters \<Rightarrow> string" where
  "headerComments p =
     ''// Verilog version of Prolog program '' @ InFileName p @ ''\<newline>'' @
     ''// Conversion by '' @ ProgName p @ '', written by Scott Pakin <pakin@lanl.gov>\<newline>'' @
     ''//\<newline>'' @
     ''// This program is intended to be passed to edif2qmasm, then to qmasm, and\<newline>'' @
     ''// finally run on a quantum annealer.\<newline>'' @
     ''//\<newline>'' @
     ''// Note: This program uses exclusively '' @ showNat (unat (IntBits p)) @
     ''-bit unsigned integers.\<newline>\<newline>''"

text \<open>
  \<^verbatim>\<open>for nm, cs := range p.TopLevel\<close> ranges over a Go map. The language fixes
  no iteration order: each entry is produced once, in an order that may differ from one
  run to the next. The order a run takes is therefore an input of the model: a sequence
  of the entries of the map, each key once.
\<close>

definition rangeOrder :: "('k \<rightharpoonup> 'v) \<Rightarrow> ('k \<times> 'v) list \<Rightarrow> bool" where
  "rangeOrder m kvs = (distinct (map fst kvs) \<and> map_of kvs = m)"

text \<open>The modules of a run, one per entry in iteration order, each after an empty line.\<close>

definition writeGroups ::
  "ASTNode \<Rightarrow> Parameters \<Rightarrow> (string \<times> ASTNode list) list \<Rightarrow> error + string list" where
  "writeGroups a p kvs =
     mapE (\<lambda>(nm, cs). bindE (writeClauseGroup a p nm cs) (\<lambda>m. Inr (''\<newline>'' @ m))) kvs"

definition WriteVerilog ::
  "ASTNode \<Rightarrow> Parameters \<Rightarrow> (string \<times> ASTNode list) list \<Rightarrow> error + string" where
  "WriteVerilog a p kvs =
     bindE (writeGroups a p kvs) (\<lambda>modules.
     Inr (headerComments p @ writeSymbols a p @ concat modules))"

subsection \<open>Notions used to state the properties\<close>

text \<open>The nodes of a tree in depth-first pre-order, children from left to right.\<close>

fun preorder :: "ASTNode \<Rightarrow> ASTNode list" where
  "preorder (ASTNode ty v tx ps kids) = ASTNode ty v tx ps kids # concat (map preorder kids)"

text \<open>
  The nodes that \<^verbatim>\<open>uniqueAtomNames\<close> visits: pre-order, without the first child
  of any clause node.
\<close>

fun visited :: "ASTNode \<Rightarrow> ASTNode list" where
  "visited (ASTNode ty v tx ps kids) =
     ASTNode ty v tx ps kids #
     (if ty = ClauseType then
        (case kids of [] \<Rightarrow> [] | _ # kids1 \<Rightarrow> concat (map visited kids1))
      else concat (map visited kids))"

definition atomPayloads :: "ASTNode list \<Rightarrow> string set" where
  "atomPayloads ns = {s. \<exists>n \<in> set ns. Type n = AtomType \<and> Value n = VString s}"

text \<open>
  A head argument is classified when its first byte is a lower-case letter, a digit or
  an upper-case letter.
\<close>

definition classified :: "string \<Rightarrow> bool" where
  "classified a = (IsLower (rune (hd a)) \<or> IsDigit (rune (hd a)) \<or> IsUpper (rune (hd a)))"

text \<open>The \<open>k\<close>-way OR of \<open>k\<close> operands; a single operand stands alone.\<close>

fun orOf :: "string list \<Rightarrow> string" where
  "orOf [] = []"
| "orOf [x] = x"
| "orOf (x # y # ys) = x @ '' | '' @ orOf (y # ys)"

subsection \<open>Example programs\<close>

definition atomNode :: "string \<Rightarrow> ASTNode" where
  "atomNode s = ASTNode AtomType (VString s) s \<lparr>line = 1, col = 1\<rparr> []"

definition varNode :: "string \<Rightarrow> ASTNode" where
  "varNode s = ASTNode VariableType (VString s) s \<lparr>line = 1, col = 1\<rparr> []"

definition numNode :: "string \<Rightarrow> int \<Rightarrow> ASTNode" where
  "numNode s n = ASTNode NumeralType (VInt n) s \<lparr>line = 1, col = 1\<rparr> []"

definition termNode :: "ASTNode \<Rightarrow> ASTNode" where
  "termNode k = ASTNode TermType VNil (Text k) \<lparr>line = 1, col = 1\<rparr> [k]"

definition predNode :: "string \<Rightarrow> ASTNode list \<Rightarrow> ASTNode" where
  "predNode nm ts = ASTNode PredicateType VNil nm \<lparr>line = 1, col = 1\<rparr> (atomNode nm # ts)"

definition clauseNode :: "ASTNode \<Rightarrow> ASTNode list \<Rightarrow> ASTNode" where
  "clauseNode h body = ASTNode ClauseType VNil [] \<lparr>line = 1, col = 1\<rparr> (h # body)"

text \<open>\<^verbatim>\<open>foo(a).\<close>\<close>

definition clause_foo_a :: ASTNode where
  "clause_foo_a = clauseNode (predNode ''foo'' [termNode (atomNode ''a'')]) []"

text \<open>\<^verbatim>\<open>foo(a, X, X).\<close>\<close>

definition clause_foo_aXX :: ASTNode where
  "clause_foo_aXX =
     clauseNode
       (predNode ''foo'' [termNode (atomNode ''a''), termNode (varNode ''X''),
          termNode (varNode ''X'')]) []"

text \<open>\<^verbatim>\<open>bar(A, B).\<close>\<close>

definition clause_bar_AB :: ASTNode where
  "clause_bar_AB =
     clauseNode (predNode ''bar'' [termNode (varNode ''A''), termNode (varNode ''B'')]) []"

text \<open>\<^verbatim>\<open>bar(a, 7).\<close>\<close>

definition clause_bar_a7 :: ASTNode where
  "clause_bar_a7 =
     clauseNode (predNode ''bar'' [termNode (atomNode ''a''), termNode (numNode ''7'' 7)]) []"

text \<open>\<^verbatim>\<open>same(X, Y, X) :- Y = 3.\<close>\<close>

definition clause_same :: ASTNode where
  "clause_same =
     clauseNode
       (predNode ''same'' [termNode (varNode ''X''), termNode (varNode ''Y''),
          termNode (varNode ''X'')])
       [ASTNode PredicateType VNil ''Y = 3'' \<lparr>line = 1, col = 17\<rparr>
          [ASTNode RelationType VNil ''Y = 3'' \<lparr>line = 1, col = 17\<rparr>
             [varNode ''Y'',
              ASTNode RelationOpType (VString ''='') ''='' \<lparr>line = 1, col = 19\<rparr> [],
              numNode ''3'' 3]]]"

text \<open>\<^verbatim>\<open>p(a, 7, a, 7).\<close>\<close>

definition clause_p_a7a7 :: ASTNode where
  "clause_p_a7a7 =
     clauseNode
       (predNode ''p'' [termNode (atomNode ''a''), termNode (numNode ''7'' 7),
          termNode (atomNode ''a''), termNode (numNode ''7'' 7)]) []"

text \<open>\<^verbatim>\<open>q(X, _y).\<close>: the second argument starts with an underscore.\<close>

definition clause_q_underscore :: ASTNode where
  "clause_q_underscore =
     clauseNode (predNode ''q'' [termNode (varNode ''X''), termNode (varNode ''_y'')]) []"

text \<open>
  A clause \<^verbatim>\<open>p(T)\<close> whose only head argument has a text that starts with the
  character U+00AB, a left-pointing double angle quotation mark, in UTF-8 the bytes
  \<open>0xC2 0xAB\<close>, followed by the letter \<open>x\<close>.
\<close>

definition text_guillemet :: string where
  "text_guillemet = [CHR 0xC2, CHR 0xAB, CHR ''x'']"

definition clause_p_guillemet :: ASTNode where
  "clause_p_guillemet = clauseNode (predNode ''p'' [termNode (atomNode text_guillemet)]) []"

text \<open>A tree with a structure node at 2:1 before a list node at 3:5 in pre-order.\<close>

definition tree_with_list :: ASTNode where
  "tree_with_list =
     ASTNode TermType VNil [] \<lparr>line = 1, col = 1\<rparr>
       [ASTNode StructureType VNil ''s(a)'' \<lparr>line = 2, col = 1\<rparr> [atomNode ''a''],
        ASTNode TermType VNil [] \<lparr>line = 3, col = 1\<rparr>
          [ASTNode ListType VNil ''[a]'' \<lparr>line = 3, col = 5\<rparr> [atomNode ''a''],
           ASTNode ListType VNil ''[]'' \<lparr>line = 4, col = 1\<rparr> []]]"

definition exampleParameters :: Parameters where
  "exampleParameters =
     \<lparr>ProgName = ''qa-prolog'', InFileName = ''example.pl'', IntBits = 4,
      IntToSym = [''a''],
      TopLevel = map_of [(''bar/2'', [clause_bar_AB, clause_bar_a7]), (''foo/3'', [clause_foo_aXX])]\<rparr>"

section \<open>Properties\<close>

subsection \<open>The identifier encoder\<close>

lemma nChars_26: "nChars = 26"
  by (simp add: nChars_def chars_def)

lemma length_chars: "length chars = 26"
  by (simp add: chars_def)

lemma distinct_chars: "distinct chars"
  by (simp add: chars_def)

lemma slice_chars:
  assumes "0 \<le> k" and "k < 26"
  shows "slice chars k (k + 1) = Inr [chars ! nat k]"
proof -
  have "nat k < length chars"
    using assms by (simp add: length_chars)
  then have "take 1 (drop (nat k) chars) = [chars ! nat k]"
    by (simp add: take_Suc_conv_app_nth drop_take hd_drop_conv_nth take_Suc)
  then show ?thesis
    using assms by (simp add: slice_def length_chars)
qed

lemma numToVerVar_one:
  assumes "0 \<le> n" and "n < 26"
  shows "numToVerVar n = Inr [CHR ''$'', chars ! nat n]"
  using assms slice_chars [of n] by (simp add: numToVerVar_def nChars_26 bindE_def)

lemma numToVerVar_two:
  assumes "26 \<le> n" and "n < 702"
  shows "numToVerVar n = Inr [CHR ''$'', chars ! nat (n div 26 - 1), chars ! nat (n mod 26)]"
proof -
  have a: "0 \<le> n div 26 - 1" "n div 26 - 1 < 26"
    using assms by auto
  have b: "0 \<le> n mod 26" "n mod 26 < 26"
    by auto
  have "slice chars (n div 26 - 1) (n div 26) = Inr [chars ! nat (n div 26 - 1)]"
    using slice_chars [OF a] by simp
  moreover have "slice chars (n mod 26) (n mod 26 + 1) = Inr [chars ! nat (n mod 26)]"
    using slice_chars [OF b] .
  ultimately show ?thesis
    using assms by (simp add: numToVerVar_def nChars_26 bindE_def Let_def)
qed

lemma numToVerVar_fatal:
  assumes "702 \<le> n"
  shows "numToVerVar n = Inl (Fatal ''Too many parameters'')"
  using assms by (simp add: numToVerVar_def nChars_26)

lemma numToVerVar_sigil:
  assumes "numToVerVar n = Inr s"
  shows "\<exists>t. s = CHR ''$'' # t"
  using assms
  by (auto simp: numToVerVar_def bindE_def Let_def split: if_splits sum.splits)

lemma chars_nth_inj:
  assumes "chars ! i = chars ! j" and "i < 26" and "j < 26"
  shows "i = j"
  using assms distinct_chars by (simp add: nth_eq_iff_index_eq length_chars)

text \<open>
  C5. For \<open>0 \<le> n < 26\<close> the encoder returns the sigil \<open>$\<close> followed by the
  letter at index \<open>n\<close> of the alphabet; for \<open>26 \<le> n < 702\<close> it returns the sigil
  followed by the letter at index \<open>n div 26 - 1\<close> and the letter at index
  \<open>n mod 26\<close>; and whatever identifier it returns starts with the sigil.
\<close>

theorem numToVerVar_encoding:
  "(0 \<le> n \<and> n < 26 \<longrightarrow> numToVerVar n = Inr [CHR ''$'', chars ! nat n]) \<and>
   (26 \<le> n \<and> n < 702 \<longrightarrow>
      numToVerVar n = Inr [CHR ''$'', chars ! nat (n div 26 - 1), chars ! nat (n mod 26)]) \<and>
   (\<forall>s. numToVerVar n = Inr s \<longrightarrow> (\<exists>t. s = ''$'' @ t))"
  using numToVerVar_one [of n] numToVerVar_two [of n] numToVerVar_sigil [of n]
  by auto

theorem numToVerVar_encoding_witness:
  "numToVerVar 4 = Inr ''$E'' \<and> numToVerVar 25 = Inr ''$Z'' \<and>
   numToVerVar 26 = Inr ''$AA'' \<and> numToVerVar 701 = Inr ''$ZZ'' \<and>
   numToVerVar 58 = Inr ''$BG''"
  using numToVerVar_encoding [of 4] numToVerVar_encoding [of 25]
    numToVerVar_encoding [of 26] numToVerVar_encoding [of 701] numToVerVar_encoding [of 58]
  by (simp add: chars_def)

text \<open>
  C6. The encoder is injective on \<open>[0, 702)\<close>: two distinct numbers of that range
  never get the same result. From 702 on it returns no identifier and stops with the
  fatal error "Too many parameters".
\<close>

theorem numToVerVar_injective:
  "(0 \<le> m \<and> m < 702 \<and> 0 \<le> n \<and> n < 702 \<and> m \<noteq> n \<longrightarrow> numToVerVar m \<noteq> numToVerVar n) \<and>
   (702 \<le> n \<longrightarrow> numToVerVar n = Inl (Fatal ''Too many parameters''))"
proof (intro conjI impI)
  assume h: "0 \<le> m \<and> m < 702 \<and> 0 \<le> n \<and> n < 702 \<and> m \<noteq> n"
  show "numToVerVar m \<noteq> numToVerVar n"
  proof
    assume eq: "numToVerVar m = numToVerVar n"
    consider (ss) "m < 26" "n < 26" | (sl) "m < 26" "26 \<le> n" | (ls) "26 \<le> m" "n < 26"
      | (ll) "26 \<le> m" "26 \<le> n"
      by linarith
    then show False
    proof cases
      case ss
      with h eq have "chars ! nat m = chars ! nat n"
        by (simp add: numToVerVar_one)
      with ss h have "nat m = nat n"
        by (intro chars_nth_inj) auto
      with h show False by auto
    next
      case sl
      with h eq show False
        by (simp add: numToVerVar_one numToVerVar_two)
    next
      case ls
      with h eq show False
        by (simp add: numToVerVar_one numToVerVar_two)
    next
      case ll
      with h eq have e: "chars ! nat (m div 26 - 1) = chars ! nat (n div 26 - 1)"
        "chars ! nat (m mod 26) = chars ! nat (n mod 26)"
        by (simp_all add: numToVerVar_two)
      have "nat (m div 26 - 1) = nat (n div 26 - 1)"
        using e(1) ll h by (intro chars_nth_inj) auto
      with ll have d: "m div 26 = n div 26"
        by auto
      have "nat (m mod 26) = nat (n mod 26)"
        using e(2) by (intro chars_nth_inj) auto
      then have r: "m mod 26 = n mod 26"
        by auto
      have "m = 26 * (m div 26) + m mod 26"
        by simp
      also have "\<dots> = 26 * (n div 26) + n mod 26"
        using d r by simp
      also have "\<dots> = n"
        by simp
      finally show False
        using h by simp
    qed
  qed
next
  assume "702 \<le> n"
  then show "numToVerVar n = Inl (Fatal ''Too many parameters'')"
    by (rule numToVerVar_fatal)
qed

theorem numToVerVar_injective_witness:
  "numToVerVar 25 \<noteq> numToVerVar 26 \<and> numToVerVar 1 \<noteq> numToVerVar 27 \<and>
   numToVerVar 702 = Inl (Fatal ''Too many parameters'')"
  using numToVerVar_injective [of 25 26] numToVerVar_injective [of 1 27]
    numToVerVar_injective [of 0 702]
  by simp

subsection \<open>The tree walker and the validator\<close>

lemma walker_filter:
  "walker t a nodes = nodes @ filter (\<lambda>n. Type n = t) (preorder a)"
  "walkerKids t kids nodes = nodes @ filter (\<lambda>n. Type n = t) (concat (map preorder kids))"
  by (induction t a nodes and t kids nodes rule: walker_walkerKids.induct) simp_all

lemma FindByType_preorder: "FindByType a t = filter (\<lambda>n. Type n = t) (preorder a)"
  by (simp add: FindByType_def walker_filter)

lemma find_filter:
  "find P xs = (case filter P xs of [] \<Rightarrow> None | x # _ \<Rightarrow> Some x)"
  by (induction xs) simp_all

text \<open>
  C7. The validator stops with the position-tagged error "Lists are not currently
  supported" at the first list node in depth-first pre-order when the tree has a list
  node; otherwise with "Structures are not currently supported" at the first structure
  node in pre-order when it has one; otherwise it returns without an error.
\<close>

theorem RejectUnimplemented_first_node:
  "RejectUnimplemented a =
     (case find (\<lambda>n. Type n = ListType) (preorder a) of
        Some n \<Rightarrow> Inl (ParseError (Pos n) ''Lists are not currently supported'')
      | None \<Rightarrow>
          (case find (\<lambda>n. Type n = StructureType) (preorder a) of
             Some n \<Rightarrow> Inl (ParseError (Pos n) ''Structures are not currently supported'')
           | None \<Rightarrow> Inr ()))"
  by (simp add: RejectUnimplemented_def FindByType_preorder find_filter split: list.splits)

theorem RejectUnimplemented_first_node_witness:
  "RejectUnimplemented tree_with_list =
     Inl (ParseError \<lparr>line = 3, col = 5\<rparr> ''Lists are not currently supported'') \<and>
   RejectUnimplemented clause_foo_aXX = Inr ()"
  using RejectUnimplemented_first_node [of tree_with_list]
    RejectUnimplemented_first_node [of clause_foo_aXX]
  by (simp add: tree_with_list_def clause_foo_aXX_def clauseNode_def predNode_def
      termNode_def atomNode_def varNode_def)

subsection \<open>Atom names\<close>

lemma atomPayloads_simps:
  "atomPayloads [] = {}"
  "atomPayloads (xs @ ys) = atomPayloads xs \<union> atomPayloads ys"
  "atomPayloads (n # ns) =
     (if Type n = AtomType then (case Value n of VString s \<Rightarrow> {s} | _ \<Rightarrow> {}) else {})
     \<union> atomPayloads ns"
  by (auto simp: atomPayloads_def split: payload.splits)

lemma uniqueAtomNames_collects:
  "uniqueAtomNames a names = Inr names1 \<Longrightarrow> names1 = names \<union> atomPayloads (visited a)"
  "uniqueAtomNamesKids kids names = Inr names1 \<Longrightarrow>
     names1 = names \<union> atomPayloads (concat (map visited kids))"
proof (induction a names and kids names arbitrary: names1 and names1
    rule: uniqueAtomNames_uniqueAtomNamesKids.induct)
  case (1 ty v tx ps kids names)
  show ?case
  proof (cases "ty = AtomType")
    case True
    with "1.prems" obtain nm where v: "v = VString nm"
      by (cases v) auto
    from True have nc: "ty \<noteq> ClauseType"
      by simp
    from "1.prems" True v nc have "uniqueAtomNamesKids kids (insert nm names) = Inr names1"
      by simp
    with "1.IH"(2) [of "insert nm names" names1] True v nc
    have "names1 = insert nm names \<union> atomPayloads (concat (map visited kids))"
      by simp
    with True v nc show ?thesis
      by (simp add: atomPayloads_simps)
  next
    case False
    show ?thesis
    proof (cases "ty = ClauseType")
      case True
      with "1.prems" False obtain k kids1 where kids: "kids = k # kids1"
        by (cases kids) auto
      from "1.prems" False True kids have "uniqueAtomNamesKids kids1 names = Inr names1"
        by simp
      with "1.IH"(1) [of names k kids1 names1] False True kids
      have "names1 = names \<union> atomPayloads (concat (map visited kids1))"
        by simp
      with False True kids show ?thesis
        by (simp add: atomPayloads_simps)
    next
      case nc: False
      from "1.prems" False nc have "uniqueAtomNamesKids kids names = Inr names1"
        by simp
      with "1.IH"(2) [of names names1] False nc
      have "names1 = names \<union> atomPayloads (concat (map visited kids))"
        by simp
      with False nc show ?thesis
        by (simp add: atomPayloads_simps)
    qed
  qed
next
  case (2 names)
  then show ?case
    by (simp add: atomPayloads_simps)
next
  case (3 aa kids names)
  from "3.prems" obtain names2 where a: "uniqueAtomNames aa names = Inr names2"
    and k: "uniqueAtomNamesKids kids names2 = Inr names1"
    by (auto split: sum.splits)
  from "3.IH"(1) [OF a] "3.IH"(2) [OF a k] show ?case
    by (auto simp: atomPayloads_simps)
qed

lemma finite_atomPayloads: "finite (atomPayloads ns)"
proof -
  have "atomPayloads ns \<subseteq> (\<lambda>n. case Value n of VString s \<Rightarrow> s | _ \<Rightarrow> []) ` set ns"
    by (force simp: atomPayloads_def)
  then show ?thesis
    by (rule finite_subset) simp
qed

text \<open>
  What \<^verbatim>\<open>AtomNames\<close> returns when it returns: the strictly ascending list of
  the atom payloads of the visited nodes. The first child of a clause, that is the whole
  head with its name and its arguments, is not visited.
\<close>

lemma AtomNames_result:
  assumes "AtomNames a = Inr xs"
  shows "sorted_wrt (<) xs \<and> distinct xs \<and> set xs = atomPayloads (visited a)"
proof -
  from assms obtain nmSet where u: "uniqueAtomNames a {} = Inr nmSet"
    and xs: "xs = sorted_list_of_set nmSet"
    by (auto simp: AtomNames_def split: sum.splits)
  from uniqueAtomNames_collects(1) [OF u] have "nmSet = atomPayloads (visited a)"
    by simp
  with xs finite_atomPayloads [of "visited a"] show ?thesis
    by (simp add: strict_sorted_iff)
qed

text \<open>
  C1. The claim asks for every atom other than a clause-head name, head-argument atoms
  included. On the clause \<^verbatim>\<open>foo(a).\<close> the tree holds the atoms \<open>foo\<close> (the head's
  name) and \<open>a\<close> (a head argument), and \<^verbatim>\<open>AtomNames\<close> returns the empty list:
  the head argument \<open>a\<close> is dropped together with the name.
\<close>

theorem AtomNames_drops_head_arguments:
  "AtomNames clause_foo_a = Inr [] \<and>
   map Value (FindByType clause_foo_a AtomType) = [VString ''foo'', VString ''a'']"
  by (simp add: AtomNames_def FindByType_def clause_foo_a_def clauseNode_def predNode_def
      termNode_def atomNode_def)

subsection \<open>The substitution map of a clause\<close>

lemma mapE_Inr_iff: "mapE f xs = Inr ys \<longleftrightarrow> map f xs = map Inr ys"
proof (induction xs arbitrary: ys)
  case Nil
  then show ?case by auto
next
  case (Cons x xs)
  show ?case
  proof (cases "f x")
    case (Inl e)
    then show ?thesis by (cases ys) auto
  next
    case (Inr y)
    show ?thesis
    proof (cases "mapE f xs")
      case (Inl e)
      with Cons.IH have "\<And>zs. map f xs \<noteq> map Inr zs"
        by auto
      with Inl Inr show ?thesis
        by (cases ys) auto
    next
      case r: (Inr zs)
      with Cons.IH [of zs] have "map f xs = map Inr zs"
        by simp
      with Inr r show ?thesis
        by (cases ys) (auto simp: inj_map_eq_map)
    qed
  qed
qed

lemma mapE_Inr_nth:
  assumes "mapE f xs = Inr ys"
  shows "length ys = length xs" and "i < length xs \<Longrightarrow> f (xs ! i) = Inr (ys ! i)"
proof -
  from assms have m: "map f xs = map Inr ys"
    by (simp add: mapE_Inr_iff)
  then show l: "length ys = length xs"
    by (metis length_map)
  assume i: "i < length xs"
  then have "f (xs ! i) = map f xs ! i"
    by simp
  also have "\<dots> = map Inr ys ! i"
    using m by simp
  also have "\<dots> = Inr (ys ! i)"
    using l i by simp
  finally show "f (xs ! i) = Inr (ys ! i)" .
qed

lemma mapE_total:
  assumes "\<forall>x \<in> set xs. \<exists>y. f x = Inr y"
  shows "\<exists>ys. mapE f xs = Inr ys"
  using assms by (induction xs) (auto split: sum.splits)

lemma args_Inr:
  assumes "args c = Inr (pArgs, vArgs)"
  shows "length vArgs = length pArgs"
    and "i < length pArgs \<Longrightarrow> numToVerVar (int i) = Inr (vArgs ! i)"
    and "\<exists>pred body nm terms.
      Children c = pred # body \<and> Children pred = nm # terms \<and> pArgs = map Text terms"
proof -
  from assms obtain pred body nm terms where c: "Children c = pred # body"
    and p: "Children pred = nm # terms"
    and m: "mapE (\<lambda>i. numToVerVar (int i)) [0..<length terms] = Inr vArgs"
    and t: "pArgs = map Text terms"
    by (auto simp: args_def bindE_def index0_def from1_def split: list.splits sum.splits)
  from mapE_Inr_nth(1) [OF m] t show "length vArgs = length pArgs"
    by simp
  show "numToVerVar (int i) = Inr (vArgs ! i)" if "i < length pArgs"
    using mapE_Inr_nth(2) [OF m, of i] that t by simp
  from c p t show "\<exists>pred body nm terms.
      Children c = pred # body \<and> Children pred = nm # terms \<and> pArgs = map Text terms"
    by blast
qed

lemma bindArgs_append:
  "bindArgs xs (ws @ valid) p2v = (ws @ fst (bindArgs xs valid p2v), snd (bindArgs xs valid p2v))"
  by (induction xs valid p2v arbitrary: ws rule: bindArgs.induct)
     (auto split: option.splits simp flip: append_assoc)

lemma map_add_upd_bound:
  assumes "m2 k = Some v"
  shows "m1(k \<mapsto> w) ++ m2 = m1 ++ m2"
  using assms by (auto simp: fun_eq_iff map_add_def split: option.splits)

lemma map_add_upd_free:
  assumes "m2 k = None"
  shows "m1(k \<mapsto> w) ++ m2 = m1 ++ m2(k \<mapsto> w)"
  using assms by (auto simp: fun_eq_iff map_add_def split: option.splits)

lemma bindArgs_map: "snd (bindArgs xs valid p2v) = map_of xs ++ p2v"
proof (induction xs valid p2v rule: bindArgs.induct)
  case (1 valid p2v)
  show ?case by simp
next
  case (2 p va rest valid p2v)
  show ?case
  proof (cases "p2v p")
    case None
    then have "snd (bindArgs ((p, va) # rest) valid p2v) =
        snd (bindArgs rest valid (p2v(p \<mapsto> va)))"
      by simp
    also have "\<dots> = map_of rest ++ p2v(p \<mapsto> va)"
      by (rule "2.IH"(1) [OF None])
    also have "\<dots> = map_of ((p, va) # rest) ++ p2v"
      using None by (simp add: map_add_upd_free)
    finally show ?thesis .
  next
    case (Some v)
    then have "snd (bindArgs ((p, va) # rest) valid p2v) =
        snd (bindArgs rest (valid @ [va @ '' == '' @ v]) p2v)"
      by simp
    also have "\<dots> = map_of rest ++ p2v"
      by (rule "2.IH"(2) [OF Some])
    also have "\<dots> = map_of ((p, va) # rest) ++ p2v"
      using Some by (simp add: map_add_upd_bound)
    finally show ?thesis .
  qed
qed

lemma map_of_zip_first:
  assumes "length vs = length ps" and "i < length ps" and "\<forall>k<i. ps ! k \<noteq> ps ! i"
  shows "map_of (zip ps vs) (ps ! i) = Some (vs ! i)"
  using assms
proof (induction ps arbitrary: vs i)
  case Nil
  then show ?case by simp
next
  case (Cons p ps)
  then obtain v vs1 where vs: "vs = v # vs1"
    by (cases vs) auto
  show ?case
  proof (cases i)
    case 0
    with vs show ?thesis by simp
  next
    case (Suc i1)
    with Cons.prems have ne: "p \<noteq> ps ! i1"
      by auto
    from Cons.prems Suc have "\<forall>k<i1. ps ! k \<noteq> ps ! i1"
      by auto
    with Cons.IH [of vs1 i1] Cons.prems vs Suc
    have "map_of (zip ps vs1) (ps ! i1) = Some (vs1 ! i1)"
      by simp
    with ne vs Suc show ?thesis
      by simp
  qed
qed

text \<open>A text bound to \<open>v\<close> before the loop: each later occurrence yields an equality with \<open>v\<close>.\<close>

lemma bindArgs_bound:
  assumes "p2v a = Some v" and "j < length xs" and "fst (xs ! j) = a"
  shows "(snd (xs ! j) @ '' == '' @ v) \<in> set (fst (bindArgs xs valid p2v))"
  using assms
proof (induction xs valid p2v arbitrary: j rule: bindArgs.induct)
  case (1 valid p2v)
  then show ?case by simp
next
  case (2 p va rest valid p2v)
  show ?case
  proof (cases j)
    case 0
    with "2.prems" have "p = a"
      by simp
    with "2.prems" 0 bindArgs_append [of rest "valid @ [va @ '' == '' @ v]" "[]" p2v]
    show ?thesis
      by simp
  next
    case (Suc j1)
    then have e: "((p, va) # rest) ! j = rest ! j1"
      by simp
    from "2.prems" Suc have j1: "j1 < length rest" "fst (rest ! j1) = a"
      by simp_all
    show ?thesis
    proof (cases "p2v p")
      case None
      then have step: "bindArgs ((p, va) # rest) valid p2v = bindArgs rest valid (p2v(p \<mapsto> va))"
        by simp
      from "2.prems" None have "(p2v(p \<mapsto> va)) a = Some v"
        by auto
      then have "(snd (rest ! j1) @ '' == '' @ v) \<in>
          set (fst (bindArgs rest valid (p2v(p \<mapsto> va))))"
        using j1 by (rule "2.IH"(1) [OF None])
      then show ?thesis
        unfolding step e .
    next
      case (Some w)
      then have step: "bindArgs ((p, va) # rest) valid p2v =
          bindArgs rest (valid @ [va @ '' == '' @ w]) p2v"
        by simp
      have "(snd (rest ! j1) @ '' == '' @ v) \<in>
          set (fst (bindArgs rest (valid @ [va @ '' == '' @ w]) p2v))"
        using "2.prems"(1) j1 by (rule "2.IH"(2) [OF Some])
      then show ?thesis
        unfolding step e .
    qed
  qed
qed

text \<open>The first occurrence at \<open>i\<close> binds the text; the occurrence at \<open>j\<close> yields the equality.\<close>

lemma bindArgs_repeat:
  assumes "i < j" and "j < length xs" and "fst (xs ! j) = fst (xs ! i)"
    and "\<forall>k<i. fst (xs ! k) \<noteq> fst (xs ! i)" and "p2v (fst (xs ! i)) = None"
  shows "(snd (xs ! j) @ '' == '' @ snd (xs ! i)) \<in> set (fst (bindArgs xs valid p2v))"
  using assms
proof (induction xs valid p2v arbitrary: i j rule: bindArgs.induct)
  case (1 valid p2v)
  then show ?case by simp
next
  case (2 p va rest valid p2v)
  from "2.prems" obtain j1 where j: "j = Suc j1"
    by (cases j) auto
  then have ej: "((p, va) # rest) ! j = rest ! j1"
    by simp
  show ?case
  proof (cases i)
    case 0
    with "2.prems" have n: "p2v p = None"
      by simp
    then have step: "bindArgs ((p, va) # rest) valid p2v = bindArgs rest valid (p2v(p \<mapsto> va))"
      by simp
    have "(p2v(p \<mapsto> va)) p = Some va"
      by simp
    moreover have "j1 < length rest" "fst (rest ! j1) = p"
      using "2.prems" 0 j by simp_all
    ultimately have "(snd (rest ! j1) @ '' == '' @ va) \<in>
        set (fst (bindArgs rest valid (p2v(p \<mapsto> va))))"
      by (rule bindArgs_bound)
    then show ?thesis
      unfolding step ej 0 by simp
  next
    case (Suc i1)
    then have ei: "((p, va) # rest) ! i = rest ! i1"
      by simp
    from "2.prems" Suc have ne: "p \<noteq> fst (rest ! i1)"
      by auto
    from "2.prems" Suc j have pr: "i1 < j1" "j1 < length rest" "fst (rest ! j1) = fst (rest ! i1)"
      "\<forall>k<i1. fst (rest ! k) \<noteq> fst (rest ! i1)"
      by auto
    from "2.prems" Suc have free: "p2v (fst (rest ! i1)) = None"
      by simp
    show ?thesis
    proof (cases "p2v p")
      case None
      then have step: "bindArgs ((p, va) # rest) valid p2v = bindArgs rest valid (p2v(p \<mapsto> va))"
        by simp
      from free ne have "(p2v(p \<mapsto> va)) (fst (rest ! i1)) = None"
        by simp
      with pr have "(snd (rest ! j1) @ '' == '' @ snd (rest ! i1)) \<in>
          set (fst (bindArgs rest valid (p2v(p \<mapsto> va))))"
        by (intro "2.IH"(1) [OF None])
      then show ?thesis
        unfolding step ej ei .
    next
      case (Some w)
      then have step: "bindArgs ((p, va) # rest) valid p2v =
          bindArgs rest (valid @ [va @ '' == '' @ w]) p2v"
        by simp
      from pr free have "(snd (rest ! j1) @ '' == '' @ snd (rest ! i1)) \<in>
          set (fst (bindArgs rest (valid @ [va @ '' == '' @ w]) p2v))"
        by (intro "2.IH"(2) [OF Some])
      then show ?thesis
        unfolding step ej ei .
    qed
  qed
qed

subsection \<open>The constraints of a clause\<close>

lemma processArgs_append:
  "processArgs xs (ws @ valid) =
     (case processArgs xs valid of Inl e \<Rightarrow> Inl e | Inr r \<Rightarrow> Inr (ws @ r))"
  by (induction xs valid arbitrary: ws rule: processArgs.induct)
     (auto split: list.splits)

lemma process_Inr:
  assumes "process c p2v = Inr cons" and "args c = Inr (pArgs, vArgs)"
  shows "\<exists>lits exprs.
      processArgs (zip pArgs vArgs) [] = Inr lits \<and>
      mapE (toVerilogExpr p2v) (tl (Children c)) = Inr exprs \<and>
      cons = lits @ exprs"
proof -
  from args_Inr(3) [OF assms(2)] obtain pred body where c: "Children c = pred # body"
    by blast
  with assms show ?thesis
    by (auto simp: process_def bindE_def from1_def split: sum.splits)
qed

lemma clauseValid_Inr:
  assumes "clauseValid c = Inr valid" and "args c = Inr (pArgs, vArgs)"
  shows "\<exists>cons.
      process c (snd (bindArgs (zip pArgs vArgs) [] Map.empty)) = Inr cons \<and>
      valid =
        (if fst (bindArgs (zip pArgs vArgs) [] Map.empty) @ cons = []
         then [''1'' @ [CHR 0x27] @ ''b1'']
         else fst (bindArgs (zip pArgs vArgs) [] Map.empty) @ cons)"
proof -
  obtain valid0 p2v where b: "bindArgs (zip pArgs vArgs) [] Map.empty = (valid0, p2v)"
    by (cases "bindArgs (zip pArgs vArgs) [] Map.empty") blast
  have "clauseValid c =
      bindE (process c p2v) (\<lambda>cons.
        Inr (if length (valid0 @ cons) = 0 then (valid0 @ cons) @ [''1'' @ [CHR 0x27] @ ''b1'']
             else valid0 @ cons))"
    by (simp add: clauseValid_def assms(2) b bindE_def Let_def)
  with assms(1) obtain cons where p: "process c p2v = Inr cons"
    and v: "valid =
      (if length (valid0 @ cons) = 0 then (valid0 @ cons) @ [''1'' @ [CHR 0x27] @ ''b1'']
       else valid0 @ cons)"
    by (cases "process c p2v") (simp_all add: bindE_def)
  have "valid = (if valid0 @ cons = [] then [''1'' @ [CHR 0x27] @ ''b1''] else valid0 @ cons)"
  proof (cases "valid0 @ cons = []")
    case True
    with v show ?thesis by simp
  next
    case False
    with v show ?thesis by simp
  qed
  with p b show ?thesis
    by simp
qed

text \<open>
  C3. When the head of a clause that compiles has the same variable at the positions
  \<open>i < j\<close>, \<open>i\<close> being the first occurrence, the constraint list is made of the
  equalities of repeated arguments, then the literal matches, then the lowered body
  predicates; the equality of the identifier of position \<open>j\<close> with the identifier of
  position \<open>i\<close> is among the first, so it comes before every body constraint, and
  all body constraints are still there.
\<close>

theorem repeated_variable_equality:
  assumes "clauseValid c = Inr valid"
    and "args c = Inr (pArgs, vArgs)"
    and "i < j" and "j < length pArgs"
    and "pArgs ! j = pArgs ! i"
    and "\<forall>k<i. pArgs ! k \<noteq> pArgs ! i"
    and "pArgs ! i \<noteq> []" and "IsUpper (rune (hd (pArgs ! i)))"
  shows "\<exists>eqs lits body.
      valid = eqs @ lits @ body \<and>
      (vArgs ! j @ '' == '' @ vArgs ! i) \<in> set eqs \<and>
      numToVerVar (int i) = Inr (vArgs ! i) \<and>
      numToVerVar (int j) = Inr (vArgs ! j) \<and>
      mapE (toVerilogExpr (snd (bindArgs (zip pArgs vArgs) [] Map.empty)))
        (tl (Children c)) = Inr body"
proof -
  let ?xs = "zip pArgs vArgs"
  let ?p2v = "snd (bindArgs ?xs [] Map.empty)"
  let ?eqs = "fst (bindArgs ?xs [] Map.empty)"
  have len: "length vArgs = length pArgs"
    by (rule args_Inr(1) [OF assms(2)])
  have nth: "?xs ! k = (pArgs ! k, vArgs ! k)" if "k < length pArgs" for k
    using that len by simp
  have "(snd (?xs ! j) @ '' == '' @ snd (?xs ! i)) \<in> set ?eqs"
  proof (rule bindArgs_repeat)
    show "i < j" by fact
    show "j < length ?xs" using assms(4) len by simp
    show "fst (?xs ! j) = fst (?xs ! i)" using assms(3,4,5) nth by simp
    show "\<forall>k<i. fst (?xs ! k) \<noteq> fst (?xs ! i)" using assms(3,4,6) nth by simp
    show "Map.empty (fst (?xs ! i)) = None" by simp
  qed
  then have mem: "(vArgs ! j @ '' == '' @ vArgs ! i) \<in> set ?eqs"
    using assms(3,4) nth by simp
  from clauseValid_Inr [OF assms(1,2)] obtain cons where
    p: "process c ?p2v = Inr cons" and
    v: "valid = (if ?eqs @ cons = [] then [''1'' @ [CHR 0x27] @ ''b1''] else ?eqs @ cons)"
    by blast
  from mem have "?eqs \<noteq> []"
    by auto
  with v have v': "valid = ?eqs @ cons"
    by simp
  from process_Inr [OF p assms(2)] obtain lits exprs where
    b: "mapE (toVerilogExpr ?p2v) (tl (Children c)) = Inr exprs" and c: "cons = lits @ exprs"
    by blast
  show ?thesis
  proof (intro exI conjI)
    show "valid = ?eqs @ lits @ exprs"
      using v' c by simp
    show "(vArgs ! j @ '' == '' @ vArgs ! i) \<in> set ?eqs"
      by (rule mem)
    show "numToVerVar (int i) = Inr (vArgs ! i)"
      using assms(3,4) by (intro args_Inr(2) [OF assms(2)]) simp
    show "numToVerVar (int j) = Inr (vArgs ! j)"
      using assms(4) by (intro args_Inr(2) [OF assms(2)])
    show "mapE (toVerilogExpr ?p2v) (tl (Children c)) = Inr exprs"
      by (rule b)
  qed
qed

theorem repeated_variable_equality_witness:
  "clauseValid clause_same = Inr [''$C == $A'', ''$B == 3''] \<and>
   args clause_same = Inr ([''X'', ''Y'', ''X''], [''$A'', ''$B'', ''$C'']) \<and>
   (\<exists>eqs lits body.
      [''$C == $A'', ''$B == 3''] = eqs @ lits @ body \<and>
      ''$C == $A'' \<in> set eqs \<and>
      mapE (toVerilogExpr
             (snd (bindArgs (zip [''X'', ''Y'', ''X''] [''$A'', ''$B'', ''$C'']) [] Map.empty)))
        (tl (Children clause_same)) = Inr body)"
proof -
  have v: "clauseValid clause_same = Inr [''$C == $A'', ''$B == 3'']"
    by code_simp
  have a: "args clause_same = Inr ([''X'', ''Y'', ''X''], [''$A'', ''$B'', ''$C''])"
    by code_simp
  have "\<exists>eqs lits body.
      [''$C == $A'', ''$B == 3''] = eqs @ lits @ body \<and>
      ([''$A'', ''$B'', ''$C''] ! 2 @ '' == '' @ [''$A'', ''$B'', ''$C''] ! 0) \<in> set eqs \<and>
      numToVerVar (int 0) = Inr ([''$A'', ''$B'', ''$C''] ! 0) \<and>
      numToVerVar (int 2) = Inr ([''$A'', ''$B'', ''$C''] ! 2) \<and>
      mapE (toVerilogExpr
             (snd (bindArgs (zip [''X'', ''Y'', ''X''] [''$A'', ''$B'', ''$C'']) [] Map.empty)))
        (tl (Children clause_same)) = Inr body"
    by (rule repeated_variable_equality [OF v a]) (simp_all add: IsUpper_def rune_def)
  then obtain eqs lits body where
    "[''$C == $A'', ''$B == 3''] = eqs @ lits @ body"
    "([''$A'', ''$B'', ''$C''] ! 2 @ '' == '' @ [''$A'', ''$B'', ''$C''] ! 0) \<in> set eqs"
    "mapE (toVerilogExpr
            (snd (bindArgs (zip [''X'', ''Y'', ''X''] [''$A'', ''$B'', ''$C'']) [] Map.empty)))
       (tl (Children clause_same)) = Inr body"
    by blast
  moreover from this(2) have "''$C == $A'' \<in> set eqs"
    by simp
  ultimately show ?thesis
    using v a by blast
qed

text \<open>
  C9. The substitution map of a clause binds the text of every head argument, of
  whatever class, to the identifier of the first position that holds that text. So a
  text repeated at a later position \<open>j\<close>, be it a variable, a symbolic constant or a
  numeral, yields the equality of the identifier of \<open>j\<close> with the identifier of the
  first position, and every constraint list the clause emits contains it.
\<close>

theorem substitution_map_binds_every_argument:
  assumes "args c = Inr (pArgs, vArgs)"
    and "i \<le> j" and "j < length pArgs"
    and "pArgs ! j = pArgs ! i"
    and "\<forall>k<i. pArgs ! k \<noteq> pArgs ! i"
  shows "snd (bindArgs (zip pArgs vArgs) [] Map.empty) (pArgs ! j) = Some (vArgs ! i) \<and>
    numToVerVar (int i) = Inr (vArgs ! i) \<and>
    (i < j \<longrightarrow>
       (vArgs ! j @ '' == '' @ vArgs ! i) \<in> set (fst (bindArgs (zip pArgs vArgs) [] Map.empty)) \<and>
       (\<forall>valid. clauseValid c = Inr valid \<longrightarrow> (vArgs ! j @ '' == '' @ vArgs ! i) \<in> set valid))"
proof -
  let ?xs = "zip pArgs vArgs"
  let ?eqs = "fst (bindArgs ?xs [] Map.empty)"
  have len: "length vArgs = length pArgs"
    by (rule args_Inr(1) [OF assms(1)])
  have nth: "?xs ! k = (pArgs ! k, vArgs ! k)" if "k < length pArgs" for k
    using that len by simp
  have i: "i < length pArgs"
    using assms(2,3) by simp
  have "map_of ?xs (pArgs ! i) = Some (vArgs ! i)"
    using len i assms(5) by (rule map_of_zip_first)
  then have m: "snd (bindArgs ?xs [] Map.empty) (pArgs ! j) = Some (vArgs ! i)"
    using assms(4) by (simp add: bindArgs_map)
  have n: "numToVerVar (int i) = Inr (vArgs ! i)"
    using args_Inr(2) [OF assms(1) i] .
  have e: "(vArgs ! j @ '' == '' @ vArgs ! i) \<in> set ?eqs" if "i < j"
  proof -
    have "(snd (?xs ! j) @ '' == '' @ snd (?xs ! i)) \<in> set ?eqs"
    proof (rule bindArgs_repeat)
      show "i < j" by fact
      show "j < length ?xs" using assms(3) len by simp
      show "fst (?xs ! j) = fst (?xs ! i)" using i assms(3,4) nth by simp
      show "\<forall>k<i. fst (?xs ! k) \<noteq> fst (?xs ! i)" using i assms(5) nth by simp
      show "Map.empty (fst (?xs ! i)) = None" by simp
    qed
    then show ?thesis
      using i assms(3) nth by simp
  qed
  have "(vArgs ! j @ '' == '' @ vArgs ! i) \<in> set valid"
    if "i < j" and "clauseValid c = Inr valid" for valid
  proof -
    from clauseValid_Inr [OF that(2) assms(1)] obtain cons where
      v: "valid = (if ?eqs @ cons = [] then [''1'' @ [CHR 0x27] @ ''b1''] else ?eqs @ cons)"
      by blast
    from e [OF that(1)] have "?eqs \<noteq> []"
      by auto
    with v e [OF that(1)] show ?thesis
      by simp
  qed
  with m n e show ?thesis
    by blast
qed

theorem substitution_map_binds_every_argument_witness:
  "args clause_p_a7a7 = Inr ([''a'', ''7'', ''a'', ''7''], [''$A'', ''$B'', ''$C'', ''$D'']) \<and>
   clauseValid clause_p_a7a7 =
     Inr [''$C == $A'', ''$D == $B'', ''$A == `a'', ''$B == 7'', ''$C == `a'', ''$D == 7''] \<and>
   snd (bindArgs (zip [''a'', ''7'', ''a'', ''7''] [''$A'', ''$B'', ''$C'', ''$D'']) [] Map.empty)
     ''7'' = Some ''$B'' \<and>
   numToVerVar 1 = Inr ''$B'' \<and>
   ''$D == $B'' \<in>
     set (fst (bindArgs (zip [''a'', ''7'', ''a'', ''7''] [''$A'', ''$B'', ''$C'', ''$D'']) []
       Map.empty)) \<and>
   ''$D == $B'' \<in>
     set [''$C == $A'', ''$D == $B'', ''$A == `a'', ''$B == 7'', ''$C == `a'', ''$D == 7'']"
proof -
  let ?ps = "[''a'', ''7'', ''a'', ''7'']"
  let ?vs = "[''$A'', ''$B'', ''$C'', ''$D'']"
  have a: "args clause_p_a7a7 = Inr (?ps, ?vs)"
    by code_simp
  have v: "clauseValid clause_p_a7a7 =
      Inr [''$C == $A'', ''$D == $B'', ''$A == `a'', ''$B == 7'', ''$C == `a'', ''$D == 7'']"
    by code_simp
  have "snd (bindArgs (zip ?ps ?vs) [] Map.empty) (?ps ! 3) = Some (?vs ! 1) \<and>
    numToVerVar (int 1) = Inr (?vs ! 1) \<and>
    (1 < (3::nat) \<longrightarrow>
       (?vs ! 3 @ '' == '' @ ?vs ! 1) \<in> set (fst (bindArgs (zip ?ps ?vs) [] Map.empty)) \<and>
       (\<forall>valid. clauseValid clause_p_a7a7 = Inr valid \<longrightarrow>
          (?vs ! 3 @ '' == '' @ ?vs ! 1) \<in> set valid))"
    by (rule substitution_map_binds_every_argument [OF a]) simp_all
  then have "snd (bindArgs (zip ?ps ?vs) [] Map.empty) (?ps ! 3) = Some (?vs ! 1)"
    and "numToVerVar (int 1) = Inr (?vs ! 1)"
    and "(?vs ! 3 @ '' == '' @ ?vs ! 1) \<in> set (fst (bindArgs (zip ?ps ?vs) [] Map.empty))"
    and "\<forall>valid. clauseValid clause_p_a7a7 = Inr valid \<longrightarrow>
          (?vs ! 3 @ '' == '' @ ?vs ! 1) \<in> set valid"
    by simp_all
  then have "snd (bindArgs (zip ?ps ?vs) [] Map.empty) ''7'' = Some ''$B''"
    and "numToVerVar 1 = Inr ''$B''"
    and "''$D == $B'' \<in> set (fst (bindArgs (zip ?ps ?vs) [] Map.empty))"
    and "''$D == $B'' \<in>
      set [''$C == $A'', ''$D == $B'', ''$A == `a'', ''$B == 7'', ''$C == `a'', ''$D == 7'']"
    using v by simp_all
  with a v show ?thesis
    by blast
qed

lemma numToVerVar_ok:
  assumes "0 \<le> n" and "n < 702"
  shows "\<exists>s. numToVerVar n = Inr s"
proof (cases "n < 26")
  case True
  with assms numToVerVar_one [of n] show ?thesis by simp
next
  case False
  with assms numToVerVar_two [of n] show ?thesis by simp
qed

lemma args_ok:
  assumes "Children c = pred # body" and "Children pred = nm # terms"
    and "length terms \<le> 702"
  shows "\<exists>vArgs. args c = Inr (map Text terms, vArgs)"
proof -
  have "\<forall>i \<in> set [0..<length terms]. \<exists>s. numToVerVar (int i) = Inr s"
    using assms(3) by (auto intro!: numToVerVar_ok)
  then obtain vArgs where "mapE (\<lambda>i. numToVerVar (int i)) [0..<length terms] = Inr vArgs"
    using mapE_total [of "[0..<length terms]" "\<lambda>i. numToVerVar (int i)"] by blast
  with assms(1,2) show ?thesis
    by (simp add: args_def bindE_def index0_def from1_def)
qed

lemma bindArgs_distinct:
  assumes "distinct (map fst xs)" and "\<forall>x \<in> set xs. p2v (fst x) = None"
  shows "fst (bindArgs xs valid p2v) = valid"
  using assms
proof (induction xs valid p2v rule: bindArgs.induct)
  case (1 valid p2v)
  show ?case by simp
next
  case (2 p va rest valid p2v)
  from "2.prems" have n: "p2v p = None"
    by simp
  then have step: "bindArgs ((p, va) # rest) valid p2v = bindArgs rest valid (p2v(p \<mapsto> va))"
    by simp
  have "fst (bindArgs rest valid (p2v(p \<mapsto> va))) = valid"
  proof (rule "2.IH"(1) [OF n])
    show "distinct (map fst rest)"
      using "2.prems" by simp
    show "\<forall>x \<in> set rest. (p2v(p \<mapsto> va)) (fst x) = None"
      using "2.prems" by auto
  qed
  then show ?case
    unfolding step .
qed

lemma IsUpper_only:
  assumes "IsUpper r"
  shows "\<not> IsLower r" and "\<not> IsDigit r"
  using assms by (auto simp: IsUpper_def IsLower_def IsDigit_def)

lemma processArgs_variables:
  assumes "\<forall>x \<in> set xs. fst x \<noteq> [] \<and> IsUpper (rune (hd (fst x)))"
  shows "processArgs xs valid = Inr valid"
  using assms
proof (induction xs valid rule: processArgs.induct)
  case (1 valid)
  show ?case by simp
next
  case (2 a va rest valid)
  from "2.prems" obtain c cs where a: "a = c # cs" and u: "IsUpper (rune c)"
    by (cases a) auto
  from u have nl: "\<not> IsLower (rune c)" and nd: "\<not> IsDigit (rune c)"
    by (rule IsUpper_only)+
  have "processArgs rest valid = Inr valid"
    using a nl nd u "2.prems" by (intro "2.IH"(3)) auto
  with a nl nd u show ?case
    by simp
qed

text \<open>
  C8. A clause whose body is empty and whose head arguments (at most 702, the ceiling of
  the identifier encoder) are pairwise distinct variables yields no constraint; the
  clause compiler then puts in the one constant \<^verbatim>\<open>1'b1\<close>, so that the validity
  signal is declared with the range \<^verbatim>\<open>[0:0]\<close>, that is one bit wide, and its
  only bit is assigned the constant true.
\<close>

theorem constraint_free_clause:
  assumes "Children c = [pred]"
    and "Children pred = nm # terms"
    and "length terms \<le> 702"
    and "distinct (map Text terms)"
    and "\<forall>t \<in> set terms. Text t \<noteq> [] \<and> IsUpper (rune (hd (Text t)))"
  shows "clauseValid c = Inr [''1'' @ [CHR 0x27] @ ''b1''] \<and>
    writeClauseBody c p name cNum =
      Inr (wireLine 0 cNum @ assignLine cNum 0 (''1'' @ [CHR 0x27] @ ''b1''))"
proof -
  from args_ok [OF assms(1,2,3)] obtain vArgs where a: "args c = Inr (map Text terms, vArgs)"
    by blast
  let ?xs = "zip (map Text terms) vArgs"
  have len: "length vArgs = length (map Text terms)"
    by (rule args_Inr(1) [OF a])
  then have keys: "map fst ?xs = map Text terms"
    by simp
  have "fst (bindArgs ?xs [] Map.empty) = []"
    using assms(4) keys by (intro bindArgs_distinct) simp_all
  then obtain p2v where b: "bindArgs ?xs [] Map.empty = ([], p2v)"
    by (cases "bindArgs ?xs [] Map.empty") simp
  have "\<forall>x \<in> set ?xs. fst x \<noteq> [] \<and> IsUpper (rune (hd (fst x)))"
  proof
    fix x
    assume "x \<in> set ?xs"
    then have "fst x \<in> set (map Text terms)"
      using set_zip_leftD [of "fst x" "snd x" "map Text terms" vArgs] by simp
    then obtain t where "t \<in> set terms" and "fst x = Text t"
      by auto
    with assms(5) show "fst x \<noteq> [] \<and> IsUpper (rune (hd (fst x)))"
      by simp
  qed
  then have pa: "processArgs ?xs [] = Inr []"
    by (rule processArgs_variables)
  have pr: "process c p2v = Inr []"
    using a pa assms(1) by (simp add: process_def bindE_def from1_def)
  have v: "clauseValid c = Inr [''1'' @ [CHR 0x27] @ ''b1'']"
    using a b pr by (simp add: clauseValid_def bindE_def)
  then have "writeClauseBody c p name cNum =
      Inr (wireLine 0 cNum @ assignLine cNum 0 (''1'' @ [CHR 0x27] @ ''b1''))"
    by (simp add: writeClauseBody_def bindE_def enumerate_eq_zip)
  with v show ?thesis
    by simp
qed

theorem constraint_free_clause_witness:
  "clauseValid clause_bar_AB = Inr [''1'' @ [CHR 0x27] @ ''b1''] \<and>
   writeClauseBody clause_bar_AB exampleParameters ''bar/2'' 0 =
     Inr (''  wire [0:0] $v1;\<newline>'' @
          ''  assign $v1[0] = 1'' @ [CHR 0x27] @ ''b1;\<newline>'')"
proof -
  have w: "wireLine 0 0 = ''  wire [0:0] $v1;\<newline>''"
    by code_simp
  have s: "assignLine 0 0 (''1'' @ [CHR 0x27] @ ''b1'') =
      ''  assign $v1[0] = 1'' @ [CHR 0x27] @ ''b1;\<newline>''"
    by code_simp
  have "clauseValid clause_bar_AB = Inr [''1'' @ [CHR 0x27] @ ''b1''] \<and>
    writeClauseBody clause_bar_AB exampleParameters ''bar/2'' 0 =
      Inr (wireLine 0 0 @ assignLine 0 0 (''1'' @ [CHR 0x27] @ ''b1''))"
    by (rule constraint_free_clause
          [of clause_bar_AB "predNode ''bar'' [termNode (varNode ''A''), termNode (varNode ''B'')]"
            "atomNode ''bar''" "[termNode (varNode ''A''), termNode (varNode ''B'')]"])
       (simp_all add: clause_bar_AB_def clauseNode_def predNode_def termNode_def varNode_def
          IsUpper_def rune_def)
  then show ?thesis
    unfolding w s .
qed

subsection \<open>Classification of head arguments\<close>

lemma processArgs_first_unclassified:
  assumes "\<forall>x \<in> set xs. fst x \<noteq> []" and "\<exists>x \<in> set xs. \<not> classified (fst x)"
  shows "\<exists>x \<in> set xs. \<not> classified (fst x) \<and>
    processArgs xs valid = Inl (Fatalf ''Internal error processing %q'' [ArgString (fst x)])"
  using assms
proof (induction xs valid rule: processArgs.induct)
  case (1 valid)
  then show ?case by simp
next
  case (2 a va rest valid)
  from "2.prems"(1) obtain c cs where a: "a = c # cs"
    by (cases a) auto
  show ?case
  proof (cases "classified a")
    case False
    with a have "processArgs ((a, va) # rest) valid =
        Inl (Fatalf ''Internal error processing %q'' [ArgString a])"
      by (simp add: classified_def)
    with False show ?thesis
      by auto
  next
    case True
    with "2.prems" have r: "\<forall>x \<in> set rest. fst x \<noteq> []" "\<exists>x \<in> set rest. \<not> classified (fst x)"
      by auto
    consider (lower) "IsLower (rune c)"
      | (digit) "\<not> IsLower (rune c)" "IsDigit (rune c)"
      | (upper) "\<not> IsLower (rune c)" "\<not> IsDigit (rune c)" "IsUpper (rune c)"
      using True a by (auto simp: classified_def)
    then show ?thesis
    proof cases
      case lower
      from "2.IH"(1) [OF a lower r] a lower show ?thesis
        by auto
    next
      case digit
      from "2.IH"(2) [OF a digit r] a digit show ?thesis
        by auto
    next
      case upper
      from "2.IH"(3) [OF a upper r] a upper show ?thesis
        by auto
    qed
  qed
qed

lemma processArgs_classified:
  assumes "\<forall>x \<in> set xs. fst x \<noteq> [] \<and> classified (fst x)"
  shows "\<exists>lits. processArgs xs valid = Inr lits"
  using assms
proof (induction xs valid rule: processArgs.induct)
  case (1 valid)
  show ?case by simp
next
  case (2 a va rest valid)
  from "2.prems" obtain c cs where a: "a = c # cs"
    by (cases a) auto
  from "2.prems" have r: "\<forall>x \<in> set rest. fst x \<noteq> [] \<and> classified (fst x)"
    by simp
  consider (lower) "IsLower (rune c)"
    | (digit) "\<not> IsLower (rune c)" "IsDigit (rune c)"
    | (upper) "\<not> IsLower (rune c)" "\<not> IsDigit (rune c)" "IsUpper (rune c)"
    using "2.prems" a by (auto simp: classified_def)
  then show ?case
  proof cases
    case lower
    from "2.IH"(1) [OF a lower r] a lower show ?thesis
      by simp
  next
    case digit
    from "2.IH"(2) [OF a digit r] a digit show ?thesis
      by simp
  next
    case upper
    from "2.IH"(3) [OF a upper r] a upper show ?thesis
      by simp
  qed
qed

lemma opLookup_not_processing:
  "opLookup tbl ty v \<noteq> Inl (Fatalf ''Internal error processing %q'' xs)"
  by (auto simp: opLookup_def payloadString_def bindE_def split: payload.splits option.splits)

lemma payloadString_not_processing:
  "payloadString v \<noteq> Inl (Fatalf ''Internal error processing %q'' xs)"
  by (auto simp: payloadString_def split: payload.splits)

lemma toVerilogExpr_not_processing:
  "toVerilogExpr p2v a \<noteq> Inl (Fatalf ''Internal error processing %q'' xs)"
proof (induction p2v a rule: toVerilogExpr.induct)
  case (1 p2v ty v tx ps kids)
  show ?case
    using 1 opLookup_not_processing [of _ ty v xs] payloadString_not_processing [of v xs]
    by (cases ty) (auto split: list.splits sum.splits option.splits; blast)+
qed

lemma mapE_error_from:
  assumes "mapE f xs = Inl e"
  shows "\<exists>x \<in> set xs. f x = Inl e"
  using assms by (induction xs) (auto split: sum.splits)

text \<open>
  C10, as the code has it. The code classifies the first byte of the text, read as a
  code point (\<^verbatim>\<open>rune(a[0])\<close>), and not the first character of the text. In a
  clause whose head is well formed and whose argument texts are not empty:
  if some head argument starts with a byte that is neither a lower-case letter, a digit
  nor an upper-case letter, \<^verbatim>\<open>process\<close> stops with the internal error
  "Internal error processing" for such an argument, whatever the substitution map, and
  so does the compilation of the clause; if every head argument starts with a
  lower-case letter, a digit or an upper-case letter, the classification loop completes
  and \<^verbatim>\<open>process\<close> never returns that error.
\<close>

theorem process_internal_error:
  assumes "args c = Inr (pArgs, vArgs)" and "\<forall>a \<in> set pArgs. a \<noteq> []"
  shows "((\<exists>a \<in> set pArgs. \<not> classified a) \<longrightarrow>
       (\<exists>a \<in> set pArgs. \<not> classified a \<and>
          (\<forall>p2v. process c p2v = Inl (Fatalf ''Internal error processing %q'' [ArgString a])) \<and>
          clauseValid c = Inl (Fatalf ''Internal error processing %q'' [ArgString a]) \<and>
          (\<forall>p name cNum. writeClauseBody c p name cNum =
             Inl (Fatalf ''Internal error processing %q'' [ArgString a])))) \<and>
    ((\<forall>a \<in> set pArgs. classified a) \<longrightarrow>
       (\<exists>lits. processArgs (zip pArgs vArgs) [] = Inr lits) \<and>
       (\<forall>p2v xs. process c p2v \<noteq> Inl (Fatalf ''Internal error processing %q'' xs)))"
proof (intro conjI impI)
  let ?xs = "zip pArgs vArgs"
  have len: "length vArgs = length pArgs"
    by (rule args_Inr(1) [OF assms(1)])
  then have "fst ` set ?xs = set pArgs"
    by (metis list.set_map map_fst_zip)
  then have k1: "fst x \<in> set pArgs" if "x \<in> set ?xs" for x
    using that by blast
  have k2: "\<exists>x \<in> set ?xs. fst x = a" if "a \<in> set pArgs" for a
    using that \<open>fst ` set ?xs = set pArgs\<close> by (metis (no_types) imageE)
  assume "\<exists>a \<in> set pArgs. \<not> classified a"
  with k2 have "\<exists>x \<in> set ?xs. \<not> classified (fst x)"
    by metis
  moreover from k1 assms(2) have "\<forall>x \<in> set ?xs. fst x \<noteq> []"
    by blast
  ultimately obtain x where x: "x \<in> set ?xs" "\<not> classified (fst x)"
    and e: "processArgs ?xs [] = Inl (Fatalf ''Internal error processing %q'' [ArgString (fst x)])"
    using processArgs_first_unclassified [of ?xs "[]"] by blast
  let ?e = "Fatalf ''Internal error processing %q'' [ArgString (fst x)]"
  have p: "process c p2v = Inl ?e" for p2v
    using assms(1) e by (simp add: process_def bindE_def)
  have v: "clauseValid c = Inl ?e"
  proof -
    obtain valid0 p2v where b: "bindArgs ?xs [] Map.empty = (valid0, p2v)"
      by (cases "bindArgs ?xs [] Map.empty") blast
    show ?thesis
      by (simp add: clauseValid_def assms(1) b p bindE_def)
  qed
  have w: "writeClauseBody c p name cNum = Inl ?e" for p name cNum
    using v by (simp add: writeClauseBody_def bindE_def)
  from x(1) have "fst x \<in> set pArgs"
    by (rule k1)
  with x(2) p v w show "\<exists>a \<in> set pArgs. \<not> classified a \<and>
      (\<forall>p2v. process c p2v = Inl (Fatalf ''Internal error processing %q'' [ArgString a])) \<and>
      clauseValid c = Inl (Fatalf ''Internal error processing %q'' [ArgString a]) \<and>
      (\<forall>p name cNum. writeClauseBody c p name cNum =
         Inl (Fatalf ''Internal error processing %q'' [ArgString a]))"
    by blast
next
  let ?xs = "zip pArgs vArgs"
  have len: "length vArgs = length pArgs"
    by (rule args_Inr(1) [OF assms(1)])
  then have "fst ` set ?xs = set pArgs"
    by (metis list.set_map map_fst_zip)
  then have k1: "fst x \<in> set pArgs" if "x \<in> set ?xs" for x
    using that by blast
  have k2: "\<exists>x \<in> set ?xs. fst x = a" if "a \<in> set pArgs" for a
    using that \<open>fst ` set ?xs = set pArgs\<close> by (metis (no_types) imageE)
  assume "\<forall>a \<in> set pArgs. classified a"
  with k1 assms(2) have "\<forall>x \<in> set ?xs. fst x \<noteq> [] \<and> classified (fst x)"
    by blast
  then show "\<exists>lits. processArgs ?xs [] = Inr lits"
    by (rule processArgs_classified)
  then obtain lits where l: "processArgs ?xs [] = Inr lits"
    by blast
  from args_Inr(3) [OF assms(1)] obtain pred body where c: "Children c = pred # body"
    by blast
  show "\<forall>p2v xs. process c p2v \<noteq> Inl (Fatalf ''Internal error processing %q'' xs)"
  proof (intro allI notI)
    fix p2v xs
    assume "process c p2v = Inl (Fatalf ''Internal error processing %q'' xs)"
    with assms(1) l c
    have "mapE (toVerilogExpr p2v) body = Inl (Fatalf ''Internal error processing %q'' xs)"
      by (simp add: process_def bindE_def from1_def split: sum.splits)
    from mapE_error_from [OF this] toVerilogExpr_not_processing [of p2v _ xs]
    show False
      by blast
  qed
qed

theorem process_internal_error_witness:
  "args clause_q_underscore = Inr ([''X'', ''_y''], [''$A'', ''$B'']) \<and>
   \<not> classified ''_y'' \<and>
   process clause_q_underscore Map.empty =
     Inl (Fatalf ''Internal error processing %q'' [ArgString ''_y'']) \<and>
   clauseValid clause_q_underscore =
     Inl (Fatalf ''Internal error processing %q'' [ArgString ''_y'']) \<and>
   args clause_p_a7a7 = Inr ([''a'', ''7'', ''a'', ''7''], [''$A'', ''$B'', ''$C'', ''$D'']) \<and>
   (\<exists>lits. processArgs (zip [''a'', ''7'', ''a'', ''7''] [''$A'', ''$B'', ''$C'', ''$D'']) [] =
      Inr lits) \<and>
   process clause_p_a7a7 Map.empty \<noteq> Inl (Fatalf ''Internal error processing %q'' [])"
proof -
  have a1: "args clause_q_underscore = Inr ([''X'', ''_y''], [''$A'', ''$B''])"
    by code_simp
  have n1: "\<forall>a \<in> set [''X'', ''_y'']. a \<noteq> []"
    by simp
  have cX: "classified ''X''"
    by code_simp
  have cy: "\<not> classified ''_y''"
    by code_simp
  have ex: "\<exists>a \<in> set [''X'', ''_y'']. \<not> classified a"
    using cy by simp
  from process_internal_error [OF a1 n1] ex obtain a where
    a: "a \<in> set [''X'', ''_y'']" "\<not> classified a"
    and p: "\<forall>p2v. process clause_q_underscore p2v =
      Inl (Fatalf ''Internal error processing %q'' [ArgString a])"
    and v: "clauseValid clause_q_underscore =
      Inl (Fatalf ''Internal error processing %q'' [ArgString a])"
    by blast
  from a cX have ay: "a = ''_y''"
    by auto
  have a2: "args clause_p_a7a7 =
      Inr ([''a'', ''7'', ''a'', ''7''], [''$A'', ''$B'', ''$C'', ''$D''])"
    by code_simp
  have n2: "\<forall>a \<in> set [''a'', ''7'', ''a'', ''7'']. a \<noteq> []"
    by simp
  have c2: "\<forall>a \<in> set [''a'', ''7'', ''a'', ''7'']. classified a"
    by code_simp
  from process_internal_error [OF a2 n2] c2
  have "\<exists>lits. processArgs (zip [''a'', ''7'', ''a'', ''7''] [''$A'', ''$B'', ''$C'', ''$D'']) [] =
      Inr lits"
    and "process clause_p_a7a7 Map.empty \<noteq> Inl (Fatalf ''Internal error processing %q'' [])"
    by blast+
  with a1 a2 cy p v ay show ?thesis
    by blast
qed

text \<open>
  For a text that starts with an ASCII character, the first byte is the first character,
  so on such texts the classification by \<^verbatim>\<open>rune(a[0])\<close> is the classification
  of the first character.
\<close>

lemma firstRune_ascii:
  assumes "rune c < 128"
  shows "firstRune (c # cs) = rune c"
  using assms by (simp add: firstRune_def decodeRune_def)

text \<open>
  The claim C10 as stated, with the first character of the text, fails. The text of the
  head argument of \<open>clause_p_guillemet\<close> starts with the character U+00AB (code point
  171), which is punctuation: neither a lower-case letter, nor a digit, nor an upper-case
  letter. The code classifies the first byte \<open>0xC2\<close> (194), which read as a code point
  is an upper-case letter; it takes the branch of a variable, nothing stops, and the
  clause compiles to the single constraint \<^verbatim>\<open>1'b1\<close>.
\<close>

theorem first_character_counterexample:
  "args clause_p_guillemet = Inr ([text_guillemet], [''$A'']) \<and>
   firstRune text_guillemet = 171 \<and>
   \<not> IsLower 171 \<and> \<not> IsDigit 171 \<and> \<not> IsUpper 171 \<and>
   rune (hd text_guillemet) = 194 \<and> IsUpper 194 \<and>
   process clause_p_guillemet Map.empty = Inr [] \<and>
   clauseValid clause_p_guillemet = Inr [''1'' @ [CHR 0x27] @ ''b1'']"
proof -
  have "args clause_p_guillemet = Inr ([text_guillemet], [''$A''])"
    by code_simp
  moreover have "firstRune text_guillemet = 171"
    by (simp add: firstRune_def decodeRune_def text_guillemet_def rune_def leadInfo_def)
  moreover have "\<not> IsLower 171" "\<not> IsDigit 171" "\<not> IsUpper 171" "IsUpper 194"
    by (simp_all add: IsLower_def IsDigit_def IsUpper_def)
  moreover have "rune (hd text_guillemet) = 194"
    by (simp add: text_guillemet_def rune_def)
  moreover have "process clause_p_guillemet Map.empty = Inr []"
    by code_simp
  moreover have "clauseValid clause_p_guillemet = Inr [''1'' @ [CHR 0x27] @ ''b1'']"
    by code_simp
  ultimately show ?thesis
    by blast
qed

subsection \<open>The clause group\<close>

lemma joinWith_tail:
  "concat (map (\<lambda>(i, x). (if i > 0 then sep else []) @ x) (enumerate (Suc n) xs)) =
     concat (map (\<lambda>x. sep @ x) xs)"
  by (induction xs arbitrary: n) simp_all

lemma joinWith_Cons: "joinWith sep (x # xs) = x @ concat (map (\<lambda>y. sep @ y) xs)"
  by (simp add: joinWith_def joinWith_tail)

lemma orOf_Cons: "orOf (x # xs) = x @ concat (map (\<lambda>y. '' | '' @ y) xs)"
  by (induction xs arbitrary: x) simp_all

lemma joinWith_orOf: "joinWith '' | '' xs = orOf xs"
proof (cases xs)
  case Nil
  then show ?thesis by (simp add: joinWith_def)
next
  case (Cons x ys)
  then show ?thesis by (simp only: joinWith_Cons orOf_Cons)
qed

lemma showNat_1: "showNat (Suc 0) = ''1''"
proof -
  have "showNat 1 = ''1''"
    by code_simp
  then show ?thesis
    by simp
qed

text \<open>
  C4. A clause group of \<open>k\<close> clauses that compiles ends with the assignment of
  \<^verbatim>\<open>$valid\<close> to the \<open>k\<close>-way OR of the AND-reductions \<^verbatim>\<open>&$v1\<close>, ...,
  \<^verbatim>\<open>&$vk\<close>, in clause order, where \<^verbatim>\<open>$v(i+1)\<close> is the validity signal
  that the body of clause \<open>i\<close> declares and assigns. For \<open>k = 1\<close> the operand is
  \<^verbatim>\<open>&$v1\<close> alone, with no OR operator.
\<close>

theorem clause_group_or:
  assumes "writeClauseGroup a p nm cs = Inr out"
  shows "\<exists>header bodies.
      writeClauseGroupHeader a p nm cs = Inr header \<and>
      length bodies = length cs \<and>
      (\<forall>i<length cs. \<exists>valid.
         clauseValid (cs ! i) = Inr valid \<and>
         writeClauseBody (cs ! i) p nm i = Inr (bodies ! i) \<and>
         bodies ! i =
           wireLine (length valid - 1) i @
           concat (map (\<lambda>(k, v). assignLine i k v) (enumerate 0 valid))) \<and>
      out = header @ concat bodies @
        ''  assign $valid = '' @
        orOf (map (\<lambda>i. ''&$v'' @ showNat (i + 1)) [0..<length cs]) @ '';\<newline>'' @
        ''endmodule\<newline>'' \<and>
      (length cs = 1 \<longrightarrow>
         out = header @ concat bodies @
           ''  assign $valid = &$v1;\<newline>'' @ ''endmodule\<newline>'')"
proof -
  from assms obtain header bodies where
    h: "writeClauseGroupHeader a p nm cs = Inr header" and
    b: "mapE (\<lambda>(i, c). writeClauseBody c p nm i) (enumerate 0 cs) = Inr bodies" and
    out: "out = header @ concat bodies @
      ''  assign $valid = '' @ validTerms (length cs) @ '';\<newline>'' @ ''endmodule\<newline>''"
    by (auto simp: writeClauseGroup_def bindE_def split: sum.splits)
  have len: "length bodies = length cs"
    using mapE_Inr_nth(1) [OF b] by simp
  have body: "\<exists>valid.
      clauseValid (cs ! i) = Inr valid \<and>
      writeClauseBody (cs ! i) p nm i = Inr (bodies ! i) \<and>
      bodies ! i =
        wireLine (length valid - 1) i @
        concat (map (\<lambda>(k, v). assignLine i k v) (enumerate 0 valid))"
    if "i < length cs" for i
  proof -
    from that have "enumerate 0 cs ! i = (i, cs ! i)"
      by (simp add: nth_enumerate_eq)
    with mapE_Inr_nth(2) [OF b, of i] that
    have w: "writeClauseBody (cs ! i) p nm i = Inr (bodies ! i)"
      by simp
    then obtain valid where "clauseValid (cs ! i) = Inr valid"
      by (cases "clauseValid (cs ! i)") (simp_all add: writeClauseBody_def bindE_def)
    with w show ?thesis
      by (simp add: writeClauseBody_def bindE_def)
  qed
  have terms: "validTerms (length cs) =
      orOf (map (\<lambda>i. ''&$v'' @ showNat (i + 1)) [0..<length cs])"
    by (simp only: validTerms_def joinWith_orOf)
  have one: "orOf (map (\<lambda>i. ''&$v'' @ showNat (i + 1)) [0..<length cs]) = ''&$v1''"
    if "length cs = 1"
    using that by (simp add: showNat_1)
  show ?thesis
  proof (rule exI, rule exI, intro conjI)
    show "writeClauseGroupHeader a p nm cs = Inr header"
      by (rule h)
    show "length bodies = length cs"
      by (rule len)
    show "\<forall>i<length cs. \<exists>valid.
        clauseValid (cs ! i) = Inr valid \<and>
        writeClauseBody (cs ! i) p nm i = Inr (bodies ! i) \<and>
        bodies ! i =
          wireLine (length valid - 1) i @
          concat (map (\<lambda>(k, v). assignLine i k v) (enumerate 0 valid))"
      using body by blast
    show "out = header @ concat bodies @
        ''  assign $valid = '' @
        orOf (map (\<lambda>i. ''&$v'' @ showNat (i + 1)) [0..<length cs]) @ '';\<newline>'' @
        ''endmodule\<newline>''"
      using out terms by simp
    show "length cs = 1 \<longrightarrow>
        out = header @ concat bodies @
          ''  assign $valid = &$v1;\<newline>'' @ ''endmodule\<newline>''"
      using out terms one by simp
  qed
qed

theorem clause_group_or_witness:
  "(\<exists>pre. writeClauseGroup clause_bar_AB exampleParameters ''bar/2''
            [clause_bar_AB, clause_bar_a7] =
          Inr (pre @ ''  assign $valid = &$v1 | &$v2;\<newline>'' @ ''endmodule\<newline>'')) \<and>
   (\<exists>pre. writeClauseGroup clause_foo_aXX exampleParameters ''foo/3'' [clause_foo_aXX] =
          Inr (pre @ ''  assign $valid = &$v1;\<newline>'' @ ''endmodule\<newline>''))"
proof -
  have "\<not> isl (writeClauseGroup clause_bar_AB exampleParameters ''bar/2''
      [clause_bar_AB, clause_bar_a7])"
    by code_simp
  then obtain out2 where
    e2: "writeClauseGroup clause_bar_AB exampleParameters ''bar/2''
           [clause_bar_AB, clause_bar_a7] = Inr out2"
    by (cases "writeClauseGroup clause_bar_AB exampleParameters ''bar/2''
      [clause_bar_AB, clause_bar_a7]") simp_all
  have "\<not> isl (writeClauseGroup clause_foo_aXX exampleParameters ''foo/3'' [clause_foo_aXX])"
    by code_simp
  then obtain out1 where
    e1: "writeClauseGroup clause_foo_aXX exampleParameters ''foo/3'' [clause_foo_aXX] = Inr out1"
    by (cases "writeClauseGroup clause_foo_aXX exampleParameters ''foo/3'' [clause_foo_aXX]")
      simp_all
  have o: "orOf (map (\<lambda>i. ''&$v'' @ showNat (i + 1)) [0..<length [clause_bar_AB, clause_bar_a7]]) =
      ''&$v1 | &$v2''"
    by code_simp
  from clause_group_or [OF e2] obtain header2 bodies2 where
    "out2 = header2 @ concat bodies2 @
       ''  assign $valid = '' @
       orOf (map (\<lambda>i. ''&$v'' @ showNat (i + 1)) [0..<length [clause_bar_AB, clause_bar_a7]]) @
       '';\<newline>'' @ ''endmodule\<newline>''"
    by blast
  then have "out2 = (header2 @ concat bodies2) @
      ''  assign $valid = &$v1 | &$v2;\<newline>'' @ ''endmodule\<newline>''"
    unfolding o by simp
  with e2 have g2: "\<exists>pre. writeClauseGroup clause_bar_AB exampleParameters ''bar/2''
      [clause_bar_AB, clause_bar_a7] =
      Inr (pre @ ''  assign $valid = &$v1 | &$v2;\<newline>'' @ ''endmodule\<newline>'')"
    by blast
  from clause_group_or [OF e1] obtain header1 bodies1 where
    "length [clause_foo_aXX] = 1 \<longrightarrow>
       out1 = header1 @ concat bodies1 @
         ''  assign $valid = &$v1;\<newline>'' @ ''endmodule\<newline>''"
    by blast
  then have "out1 = (header1 @ concat bodies1) @
      ''  assign $valid = &$v1;\<newline>'' @ ''endmodule\<newline>''"
    by simp
  with e1 have g1: "\<exists>pre. writeClauseGroup clause_foo_aXX exampleParameters ''foo/3''
      [clause_foo_aXX] = Inr (pre @ ''  assign $valid = &$v1;\<newline>'' @ ''endmodule\<newline>'')"
    by blast
  from g2 g1 show ?thesis
    by blast
qed

subsection \<open>The program emitter\<close>

lemma mapE_Inr_map:
  assumes "mapE f xs = Inr ys"
  shows "ys = map (\<lambda>x. projr (f x)) xs"
proof -
  from assms have "map f xs = map Inr ys"
    by (simp add: mapE_Inr_iff)
  then have "map projr (map f xs) = map projr (map Inr ys)"
    by simp
  then show ?thesis
    by (simp add: comp_def)
qed

lemma mapE_Inr_all:
  assumes "mapE f xs = Inr ys" and "x \<in> set xs"
  shows "\<exists>y. f x = Inr y"
proof -
  from assms(2) obtain i where "i < length xs" and "xs ! i = x"
    by (auto simp: in_set_conv_nth)
  with mapE_Inr_nth(2) [OF assms(1), of i] show ?thesis
    by auto
qed

text \<open>Running the same step over a permutation of the slice: the same results, permuted.\<close>

lemma mapE_permuted:
  assumes "mapE f xs = Inr ys" and "mset xs' = mset xs"
  shows "\<exists>ys'. mapE f xs' = Inr ys' \<and> mset ys' = mset ys"
proof -
  from assms(2) have "set xs' = set xs"
    by (rule mset_eq_setD)
  with mapE_Inr_all [OF assms(1)] have "\<forall>x \<in> set xs'. \<exists>y. f x = Inr y"
    by blast
  then obtain ys' where r: "mapE f xs' = Inr ys'"
    using mapE_total by blast
  have "mset ys' = image_mset (\<lambda>x. projr (f x)) (mset xs')"
    using mapE_Inr_map [OF r] by simp
  also have "\<dots> = image_mset (\<lambda>x. projr (f x)) (mset xs)"
    using assms(2) by simp
  also have "\<dots> = mset ys"
    using mapE_Inr_map [OF assms(1)] by simp
  finally show ?thesis
    using r by blast
qed

text \<open>Two iteration orders of one map hold the same entries.\<close>

lemma rangeOrder_entries:
  assumes "rangeOrder m kvs"
  shows "distinct kvs" and "set kvs = {(k, v). m k = Some v}"
    and "length kvs = card (dom m)"
proof -
  from assms have d: "distinct (map fst kvs)" and m: "map_of kvs = m"
    by (simp_all add: rangeOrder_def)
  from d show "distinct kvs"
    by (simp add: distinct_map)
  from d m show "set kvs = {(k, v). m k = Some v}"
    by auto
  have "dom m = set (map fst kvs)"
    using m dom_map_of_conv_image_fst [of kvs] by simp
  moreover from d have "card (set (map fst kvs)) = length (map fst kvs)"
    by (rule distinct_card)
  ultimately show "length kvs = card (dom m)"
    by simp
qed

lemma rangeOrder_mset:
  assumes "rangeOrder m kvs" and "rangeOrder m kvs'"
  shows "mset kvs' = mset kvs"
proof -
  have "set kvs' = set kvs"
    using rangeOrder_entries(2) [OF assms(1)] rangeOrder_entries(2) [OF assms(2)] by simp
  then show ?thesis
    using rangeOrder_entries(1) [OF assms(1)] rangeOrder_entries(1) [OF assms(2)]
    by (simp add: set_eq_iff_mset_eq_distinct)
qed

text \<open>
  C2, as the code has it. In a run that completes, \<^verbatim>\<open>WriteVerilog\<close> writes the
  header comments and the symbol definitions and then exactly one section per entry of
  the group table, an empty line followed by the module of that group, in the order in
  which the iteration over the table yields the entries. The table is a Go map, so the
  order is not fixed by the inputs: a run that iterates in another order writes the same
  header and the same sections, as a multiset, in that other order.
\<close>

theorem WriteVerilog_one_module_per_group:
  assumes "rangeOrder (TopLevel p) kvs" and "WriteVerilog a p kvs = Inr out"
  shows "\<exists>sections.
      length sections = length kvs \<and> length kvs = card (dom (TopLevel p)) \<and>
      (\<forall>i<length kvs.
         TopLevel p (fst (kvs ! i)) = Some (snd (kvs ! i)) \<and>
         (\<exists>m. writeClauseGroup a p (fst (kvs ! i)) (snd (kvs ! i)) = Inr m \<and>
              sections ! i = ''\<newline>'' @ m)) \<and>
      out = headerComments p @ writeSymbols a p @ concat sections \<and>
      (\<forall>kvs'. rangeOrder (TopLevel p) kvs' \<longrightarrow>
         (\<exists>sections'.
            WriteVerilog a p kvs' =
              Inr (headerComments p @ writeSymbols a p @ concat sections') \<and>
            mset sections' = mset sections))"
proof -
  let ?f = "\<lambda>(nm, cs). bindE (writeClauseGroup a p nm cs) (\<lambda>m. Inr (''\<newline>'' @ m))"
  from assms(2) obtain sections where
    g: "mapE ?f kvs = Inr sections" and
    out: "out = headerComments p @ writeSymbols a p @ concat sections"
    by (auto simp: WriteVerilog_def writeGroups_def bindE_def split: sum.splits)
  have len: "length sections = length kvs"
    by (rule mapE_Inr_nth(1) [OF g])
  have card: "length kvs = card (dom (TopLevel p))"
    by (rule rangeOrder_entries(3) [OF assms(1)])
  have entry: "TopLevel p (fst (kvs ! i)) = Some (snd (kvs ! i)) \<and>
      (\<exists>m. writeClauseGroup a p (fst (kvs ! i)) (snd (kvs ! i)) = Inr m \<and>
           sections ! i = ''\<newline>'' @ m)"
    if "i < length kvs" for i
  proof -
    from that have "kvs ! i \<in> set kvs"
      by simp
    with rangeOrder_entries(2) [OF assms(1)]
    have t: "TopLevel p (fst (kvs ! i)) = Some (snd (kvs ! i))"
      by (cases "kvs ! i") auto
    from mapE_Inr_nth(2) [OF g that]
    have "bindE (writeClauseGroup a p (fst (kvs ! i)) (snd (kvs ! i)))
        (\<lambda>m. Inr (''\<newline>'' @ m)) = Inr (sections ! i)"
      by (simp add: case_prod_beta)
    then have "\<exists>m. writeClauseGroup a p (fst (kvs ! i)) (snd (kvs ! i)) = Inr m \<and>
        sections ! i = ''\<newline>'' @ m"
      by (cases "writeClauseGroup a p (fst (kvs ! i)) (snd (kvs ! i))")
        (auto simp: bindE_def)
    with t show ?thesis
      by blast
  qed
  have other: "\<exists>sections'.
      WriteVerilog a p kvs' = Inr (headerComments p @ writeSymbols a p @ concat sections') \<and>
      mset sections' = mset sections"
    if "rangeOrder (TopLevel p) kvs'" for kvs'
  proof -
    have "mset kvs' = mset kvs"
      using assms(1) that by (rule rangeOrder_mset)
    with mapE_permuted [OF g] obtain sections' where
      "mapE ?f kvs' = Inr sections'" and "mset sections' = mset sections"
      by blast
    then show ?thesis
      by (auto simp: WriteVerilog_def writeGroups_def bindE_def)
  qed
  show ?thesis
  proof (rule exI, intro conjI)
    show "length sections = length kvs"
      by (rule len)
    show "length kvs = card (dom (TopLevel p))"
      by (rule card)
    show "\<forall>i<length kvs.
        TopLevel p (fst (kvs ! i)) = Some (snd (kvs ! i)) \<and>
        (\<exists>m. writeClauseGroup a p (fst (kvs ! i)) (snd (kvs ! i)) = Inr m \<and>
             sections ! i = ''\<newline>'' @ m)"
      using entry by blast
    show "out = headerComments p @ writeSymbols a p @ concat sections"
      by (rule out)
    show "\<forall>kvs'. rangeOrder (TopLevel p) kvs' \<longrightarrow>
        (\<exists>sections'.
           WriteVerilog a p kvs' =
             Inr (headerComments p @ writeSymbols a p @ concat sections') \<and>
           mset sections' = mset sections)"
      using other by blast
  qed
qed

lemma exampleParameters_orders:
  "rangeOrder (TopLevel exampleParameters)
     [(''bar/2'', [clause_bar_AB, clause_bar_a7]), (''foo/3'', [clause_foo_aXX])]"
  "rangeOrder (TopLevel exampleParameters)
     [(''foo/3'', [clause_foo_aXX]), (''bar/2'', [clause_bar_AB, clause_bar_a7])]"
  by (auto simp: rangeOrder_def exampleParameters_def fun_eq_iff)

text \<open>
  The claim C2 as stated fails: the group table of the example has two valid iteration
  orders, both runs complete, and their output texts differ.
\<close>

theorem WriteVerilog_order_counterexample:
  "rangeOrder (TopLevel exampleParameters)
     [(''bar/2'', [clause_bar_AB, clause_bar_a7]), (''foo/3'', [clause_foo_aXX])] \<and>
   rangeOrder (TopLevel exampleParameters)
     [(''foo/3'', [clause_foo_aXX]), (''bar/2'', [clause_bar_AB, clause_bar_a7])] \<and>
   \<not> isl (WriteVerilog clause_foo_aXX exampleParameters
     [(''bar/2'', [clause_bar_AB, clause_bar_a7]), (''foo/3'', [clause_foo_aXX])]) \<and>
   \<not> isl (WriteVerilog clause_foo_aXX exampleParameters
     [(''foo/3'', [clause_foo_aXX]), (''bar/2'', [clause_bar_AB, clause_bar_a7])]) \<and>
   WriteVerilog clause_foo_aXX exampleParameters
     [(''bar/2'', [clause_bar_AB, clause_bar_a7]), (''foo/3'', [clause_foo_aXX])] \<noteq>
   WriteVerilog clause_foo_aXX exampleParameters
     [(''foo/3'', [clause_foo_aXX]), (''bar/2'', [clause_bar_AB, clause_bar_a7])]"
proof -
  have "\<not> isl (WriteVerilog clause_foo_aXX exampleParameters
      [(''bar/2'', [clause_bar_AB, clause_bar_a7]), (''foo/3'', [clause_foo_aXX])])"
    by code_simp
  moreover have "\<not> isl (WriteVerilog clause_foo_aXX exampleParameters
      [(''foo/3'', [clause_foo_aXX]), (''bar/2'', [clause_bar_AB, clause_bar_a7])])"
    by code_simp
  moreover have "WriteVerilog clause_foo_aXX exampleParameters
      [(''bar/2'', [clause_bar_AB, clause_bar_a7]), (''foo/3'', [clause_foo_aXX])] \<noteq>
    WriteVerilog clause_foo_aXX exampleParameters
      [(''foo/3'', [clause_foo_aXX]), (''bar/2'', [clause_bar_AB, clause_bar_a7])]"
    by code_simp
  ultimately show ?thesis
    using exampleParameters_orders by blast
qed

theorem WriteVerilog_one_module_per_group_witness:
  "\<exists>sections sections'.
     length sections = 2 \<and> card (dom (TopLevel exampleParameters)) = 2 \<and>
     WriteVerilog clause_foo_aXX exampleParameters
       [(''bar/2'', [clause_bar_AB, clause_bar_a7]), (''foo/3'', [clause_foo_aXX])] =
       Inr (headerComments exampleParameters @ writeSymbols clause_foo_aXX exampleParameters @
            concat sections) \<and>
     WriteVerilog clause_foo_aXX exampleParameters
       [(''foo/3'', [clause_foo_aXX]), (''bar/2'', [clause_bar_AB, clause_bar_a7])] =
       Inr (headerComments exampleParameters @ writeSymbols clause_foo_aXX exampleParameters @
            concat sections') \<and>
     mset sections' = mset sections"
proof -
  let ?kvs = "[(''bar/2'', [clause_bar_AB, clause_bar_a7]), (''foo/3'', [clause_foo_aXX])]"
  let ?kvs' = "[(''foo/3'', [clause_foo_aXX]), (''bar/2'', [clause_bar_AB, clause_bar_a7])]"
  have "\<not> isl (WriteVerilog clause_foo_aXX exampleParameters ?kvs)"
    by code_simp
  then obtain out where e: "WriteVerilog clause_foo_aXX exampleParameters ?kvs = Inr out"
    by (cases "WriteVerilog clause_foo_aXX exampleParameters ?kvs") simp_all
  from WriteVerilog_one_module_per_group [OF exampleParameters_orders(1) e]
  obtain sections where
    l: "length sections = length ?kvs" "length ?kvs = card (dom (TopLevel exampleParameters))"
    and o: "out = headerComments exampleParameters @
      writeSymbols clause_foo_aXX exampleParameters @ concat sections"
    and r: "\<forall>kvs'. rangeOrder (TopLevel exampleParameters) kvs' \<longrightarrow>
      (\<exists>sections'.
         WriteVerilog clause_foo_aXX exampleParameters kvs' =
           Inr (headerComments exampleParameters @
                writeSymbols clause_foo_aXX exampleParameters @ concat sections') \<and>
         mset sections' = mset sections)"
    by blast
  from r exampleParameters_orders(2) obtain sections' where
    "WriteVerilog clause_foo_aXX exampleParameters ?kvs' =
       Inr (headerComments exampleParameters @
            writeSymbols clause_foo_aXX exampleParameters @ concat sections')"
    and "mset sections' = mset sections"
    by blast
  moreover from l have "length sections = 2" "card (dom (TopLevel exampleParameters)) = 2"
    by simp_all
  ultimately show ?thesis
    using e o by blast
qed

end
